theory Spec2Isabelle
  imports Main
begin

section \<open>AIS fragment reassembly of pynmea2\_ais (ais\_parser.py)\<close>

subsection \<open>Data model\<close>

text \<open>
  A \<^verbatim>\<open>VDM\<close> sentence object, with the six declared fields and \<^verbatim>\<open>sub_fields\<close>.
  The fields \<^verbatim>\<open>count\<close> and \<^verbatim>\<open>fragment\<close> are integers: the model covers sentences
  on which the conversions \<^verbatim>\<open>int(self.count)\<close> and \<^verbatim>\<open>int(self.fragment)\<close> at the head of
  \<^verbatim>\<open>parse_payload\<close> return (where they raise, no state has been touched yet).
  The type \<open>'v\<close> is the type of the Python values inside the decoded fields.
\<close>

record 'v vdm =
  count :: int
  fragment :: int
  sequential_msg_id :: string
  radio_code :: string
  payload :: string
  fill_bits :: string
  sub_fields :: "'v list list"

text \<open>
  \<^verbatim>\<open>SEQUENTIAL_MSG\<close> is a \<^verbatim>\<open>collections.OrderedDict\<close>: an association list in insertion
  order. \<^verbatim>\<open>SEQ_LIMIT\<close> is \<^verbatim>\<open>float("inf")\<close> by default or a number set by the user.
\<close>

type_synonym 'v seq_msgs = "(string \<times> 'v vdm) list"

datatype seq_limit = Unbounded | Limit int

datatype error =
    IncompleteMessageError int  \<comment> \<open>carries the number rendered in the message, \<^verbatim>\<open>last + 1\<close>\<close>
  | KeyError string             \<comment> \<open>\<^verbatim>\<open>OrderedDict.pop\<close> of a key that is absent\<close>
  | IndexError                  \<comment> \<open>\<^verbatim>\<open>list(...)[0]\<close> of an empty dictionary\<close>
  | DecodeError                 \<comment> \<open>any exception of the bit-level decoder\<close>

text \<open>
  A call of \<^verbatim>\<open>NOTIFY\<close>. Its text is the fixed prefix
  \<^verbatim>\<open>"Failed to complete a sequential message with id "\<close>, then \<^verbatim>\<open>repr(old)\<close>, then
  \<^verbatim>\<open>" (limit reached)."\<close>; the model keeps \<^verbatim>\<open>old\<close>.
\<close>

datatype notification = LimitReached string

text \<open>
  What the caller of the constructor observes: an exception, or the sentence object.
  \<open>Complete\<close>: \<^verbatim>\<open>parse_payload\<close> returned \<^verbatim>\<open>self\<close> with \<^verbatim>\<open>sub_fields\<close> filled;
  \<open>Pending\<close>: it fell off its end; \<open>Unparsed\<close>: it was not called at all.
\<close>

datatype 'v outcome =
    Raises error
  | Complete "'v vdm"
  | Pending "'v vdm"
  | Unparsed "'v vdm"

type_synonym 'v result = "'v seq_msgs \<times> notification list \<times> 'v outcome"

definition state_of :: "'v result \<Rightarrow> 'v seq_msgs" where
  "state_of r = fst r"

definition notes_of :: "'v result \<Rightarrow> notification list" where
  "notes_of r = fst (snd r)"

definition outcome_of :: "'v result \<Rightarrow> 'v outcome" where
  "outcome_of r = snd (snd r)"

subsection \<open>The ordered dictionary\<close>

definition od_keys :: "'v seq_msgs \<Rightarrow> string list" where
  "od_keys m = map fst m"

text \<open>\<^verbatim>\<open>d.get(k, None)\<close>\<close>

definition od_get :: "'v seq_msgs \<Rightarrow> string \<Rightarrow> 'v vdm option" where
  "od_get m k = map_of m k"

text \<open>The rebinding of a key that is present: the entry keeps its place.\<close>

definition od_rebind :: "'v seq_msgs \<Rightarrow> string \<Rightarrow> 'v vdm \<Rightarrow> 'v seq_msgs" where
  "od_rebind m k v = map (\<lambda>(k', v'). if k' = k then (k', v) else (k', v')) m"

text \<open>\<^verbatim>\<open>d[k] = v\<close>: a present key keeps its place, a new key goes to the end.\<close>

definition od_set :: "'v seq_msgs \<Rightarrow> string \<Rightarrow> 'v vdm \<Rightarrow> 'v seq_msgs" where
  "od_set m k v = (if k \<in> set (od_keys m) then od_rebind m k v else m @ [(k, v)])"

text \<open>The dictionary without the key \<open>k\<close>, the other entries in their order.\<close>

definition od_without :: "'v seq_msgs \<Rightarrow> string \<Rightarrow> 'v seq_msgs" where
  "od_without m k = filter (\<lambda>(k', v'). k' \<noteq> k) m"

text \<open>\<^verbatim>\<open>d.pop(k)\<close> with no default: raises \<^verbatim>\<open>KeyError\<close> on an absent key.\<close>

definition od_pop :: "'v seq_msgs \<Rightarrow> string \<Rightarrow> error + 'v seq_msgs" where
  "od_pop m k = (if k \<in> set (od_keys m) then Inr (od_without m k) else Inl (KeyError k))"

text \<open>\<^verbatim>\<open>list(d)[0]\<close>\<close>

definition od_first :: "'v seq_msgs \<Rightarrow> error + string" where
  "od_first m = (case m of [] \<Rightarrow> Inl IndexError | (k, v) # rest \<Rightarrow> Inr k)"

text \<open>\<^verbatim>\<open>len(d) > SEQ_LIMIT\<close>\<close>

definition exceeds :: "nat \<Rightarrow> seq_limit \<Rightarrow> bool" where
  "exceeds n L = (case L of Unbounded \<Rightarrow> False | Limit l \<Rightarrow> int n > l)"

subsection \<open>Interpretation of the decoded fields\<close>

text \<open>
  The Python operations that \<^verbatim>\<open>parse_complete_payload\<close> applies to values it knows
  nothing about. Each returns \<open>None\<close> where Python raises.
  \<^item> \<open>py_call f x\<close> is \<^verbatim>\<open>f(x)\<close>;
  \<^item> \<open>py_getitem t x\<close> is \<^verbatim>\<open>t[x]\<close>;
  \<^item> \<open>py_str v\<close> is the text of \<open>v\<close> when \<^verbatim>\<open>isinstance(v, str)\<close>;
  \<^item> \<open>py_int s\<close> is \<^verbatim>\<open>int(s)\<close> and \<open>py_float s\<close> is \<^verbatim>\<open>float(s)\<close>, on a text \<open>s\<close>.
\<close>

record 'v python =
  py_call :: "'v \<Rightarrow> 'v \<Rightarrow> 'v option"
  py_getitem :: "'v \<Rightarrow> 'v \<Rightarrow> 'v option"
  py_str :: "'v \<Rightarrow> string option"
  py_int :: "string \<Rightarrow> 'v option"
  py_float :: "string \<Rightarrow> 'v option"

text \<open>The nested \<^verbatim>\<open>try\<close> blocks that compute \<^verbatim>\<open>val\<close> from \<^verbatim>\<open>field[4]\<close> and \<^verbatim>\<open>field[1]\<close>.\<close>

definition decode_value :: "'v python \<Rightarrow> 'v \<Rightarrow> 'v \<Rightarrow> 'v" where
  "decode_value py dec raw =
     (case py_call py dec raw of
        Some val \<Rightarrow> val
      | None \<Rightarrow> (case py_getitem py dec raw of
                  Some val \<Rightarrow> val
                | None \<Rightarrow> raw))"

text \<open>The block under \<^verbatim>\<open>isinstance(val, str)\<close>.\<close>

definition coerce_value :: "'v python \<Rightarrow> 'v \<Rightarrow> 'v" where
  "coerce_value py val =
     (case py_str py val of
        None \<Rightarrow> val
      | Some s \<Rightarrow> (case py_int py s of
                    Some i \<Rightarrow> i
                  | None \<Rightarrow> (case py_float py s of
                              Some x \<Rightarrow> x
                            | None \<Rightarrow> val)))"

text \<open>The body of the loop over \<^verbatim>\<open>sub_fields\<close>: a field is the list of its elements.\<close>

definition interpret_field :: "'v python \<Rightarrow> 'v list \<Rightarrow> 'v list" where
  "interpret_field py field =
     (if length field = 5 then
        (let val = coerce_value py (decode_value py (field ! 4) (field ! 1))
         in [field ! 0, val, field ! 2, field ! 3, field ! 1] @ drop 4 field)
      else field)"

text \<open>
  \<^verbatim>\<open>parse_complete_payload\<close>. The bit-level decoder (\<^verbatim>\<open>BitVector.from_sixbit\<close>, then
  \<^verbatim>\<open>aivdm_unpack\<close> with \<^verbatim>\<open>aivdm_decode\<close>) lives in \<^verbatim>\<open>_ais.py\<close> and is the parameter
  \<open>unpack\<close>, from the payload to the raw fields; it is \<open>None\<close> where the decoder
  raises, and that exception, whatever it is, is \<open>DecodeError\<close> here.
\<close>

definition parse_complete_payload ::
  "'v python \<Rightarrow> (string \<Rightarrow> 'v list list option) \<Rightarrow> string \<Rightarrow> error + 'v list list" where
  "parse_complete_payload py unpack pl =
     (case unpack pl of
        None \<Rightarrow> Inl DecodeError
      | Some raw_fields \<Rightarrow> Inr (map (interpret_field py) raw_fields))"

subsection \<open>The reassembly of fragments\<close>

definition is_complete :: "'v vdm \<Rightarrow> bool" where
  "is_complete self = (count self = fragment self)"

text \<open>The block \<^verbatim>\<open># Remove the oldest if greater than the limit\<close>.\<close>

definition enforce_limit ::
  "seq_limit \<Rightarrow> 'v seq_msgs \<Rightarrow> error + ('v seq_msgs \<times> notification list)" where
  "enforce_limit L m =
     (if exceeds (length m) L then
        (case od_first m of
           Inl e \<Rightarrow> Inl e
         | Inr old \<Rightarrow> (case od_pop m old of
                        Inl e \<Rightarrow> Inl e
                      | Inr m' \<Rightarrow> Inr (m', [LimitReached old])))
      else Inr (m, []))"

text \<open>
  The blocks \<^verbatim>\<open># Check fragment\<close> and \<^verbatim>\<open># Check the previous sequential message\<close>:
  the pair \<^verbatim>\<open>(last, prev_payload)\<close>.
\<close>

definition previous :: "'v vdm option \<Rightarrow> 'v vdm \<Rightarrow> int \<times> string" where
  "previous prev_seq self =
     (case (if fragment self = 1 then None else prev_seq) of
        None \<Rightarrow> (0, [])
      | Some p \<Rightarrow> (fragment p, payload p))"

text \<open>
  The rest of \<^verbatim>\<open>parse_payload\<close>, from \<^verbatim>\<open># Check if this is the expected fragment\<close> on.
  The dictionary holds the object \<^verbatim>\<open>self\<close> itself, so the assignment to
  \<^verbatim>\<open>self.payload\<close> is seen through the dictionary where \<^verbatim>\<open>self\<close> is still in it:
  that is \<open>od_rebind\<close>.
\<close>

definition check_fragment ::
  "'v python \<Rightarrow> (string \<Rightarrow> 'v list list option) \<Rightarrow> 'v seq_msgs \<Rightarrow> notification list \<Rightarrow>
   int \<Rightarrow> string \<Rightarrow> 'v vdm \<Rightarrow> 'v result" where
  "check_fragment py unpack m notes last_frag prev_payload self =
     (if last_frag + 1 \<noteq> fragment self then
        (case od_pop m (sequential_msg_id self) of
           Inl e \<Rightarrow> (m, notes, Raises e)
         | Inr m' \<Rightarrow> (m', notes, Raises (IncompleteMessageError (last_frag + 1))))
      else
        (let self' = self\<lparr>payload := prev_payload @ payload self\<rparr>;
             m1 = od_rebind m (sequential_msg_id self) self'
         in if is_complete self' then
              (case od_pop m1 (sequential_msg_id self') of
                 Inl e \<Rightarrow> (m1, notes, Raises e)
               | Inr m2 \<Rightarrow>
                   (case parse_complete_payload py unpack (payload self') of
                      Inl e \<Rightarrow> (m2, notes, Raises e)
                    | Inr fs \<Rightarrow> (m2, notes, Complete (self'\<lparr>sub_fields := fs\<rparr>))))
            else (m1, notes, Pending self')))"

text \<open>
  \<^verbatim>\<open>VDM.parse_payload\<close> on the class state \<^verbatim>\<open>SEQ_LIMIT\<close> and \<^verbatim>\<open>SEQUENTIAL_MSG\<close>; the
  variable \<^verbatim>\<open>last\<close> of the source is \<open>last_frag\<close> here.
\<close>

definition parse_payload ::
  "'v python \<Rightarrow> (string \<Rightarrow> 'v list list option) \<Rightarrow> seq_limit \<Rightarrow> 'v seq_msgs \<Rightarrow>
   'v vdm \<Rightarrow> 'v result" where
  "parse_payload py unpack L m self =
     (let prev_seq = od_get m (sequential_msg_id self);
          m1 = od_set m (sequential_msg_id self) self
      in case enforce_limit L m1 of
           Inl e \<Rightarrow> (m1, [], Raises e)
         | Inr (m2, notes) \<Rightarrow>
             (case previous prev_seq self of
                (last_frag, prev_payload) \<Rightarrow>
                  check_fragment py unpack m2 notes last_frag prev_payload self))"

text \<open>
  \<^verbatim>\<open>VDM.__init__\<close>, after the constructor of the framework has filled the fields:
  \<^verbatim>\<open>sub_fields\<close> is the empty tuple, and the payload is parsed when it is not empty.
\<close>

definition accept ::
  "'v python \<Rightarrow> (string \<Rightarrow> 'v list list option) \<Rightarrow> seq_limit \<Rightarrow> 'v seq_msgs \<Rightarrow>
   'v vdm \<Rightarrow> 'v result" where
  "accept py unpack L m sentence =
     (let self = sentence\<lparr>sub_fields := []\<rparr>
      in if payload self \<noteq> [] then parse_payload py unpack L m self
         else (m, [], Unparsed self))"

subsection \<open>Runs of the program\<close>

text \<open>
  The caller constructs one sentence object per line, in order; an exception of one
  constructor is the result of that line, and the class state stays as the raising call
  left it. \<open>accept_all\<close> is the list of the results, line by line.
\<close>

fun accept_all ::
  "'v python \<Rightarrow> (string \<Rightarrow> 'v list list option) \<Rightarrow> seq_limit \<Rightarrow> 'v seq_msgs \<Rightarrow>
   'v vdm list \<Rightarrow> 'v result list" where
  "accept_all py unpack L m [] = []"
| "accept_all py unpack L m (s # ss) =
     (let r = accept py unpack L m s in r # accept_all py unpack L (state_of r) ss)"

text \<open>
  The states of \<^verbatim>\<open>SEQUENTIAL_MSG\<close> that a run passes through when \<^verbatim>\<open>SEQ_LIMIT\<close> keeps
  one value: the dictionary is empty when the class is created, and every constructor
  call leaves a next state, whether it returns or raises.
\<close>

inductive reachable ::
  "'v python \<Rightarrow> (string \<Rightarrow> 'v list list option) \<Rightarrow> seq_limit \<Rightarrow> 'v seq_msgs \<Rightarrow> bool"
  for py unpack L where
  initial: "reachable py unpack L []"
| call: "reachable py unpack L m \<Longrightarrow> reachable py unpack L (state_of (accept py unpack L m s))"

text \<open>The limit admits at least one message in flight (the default does).\<close>

definition at_least_one :: "seq_limit \<Rightarrow> bool" where
  "at_least_one L = (case L of Unbounded \<Rightarrow> True | Limit l \<Rightarrow> 1 \<le> l)"

text \<open>
  The invariant of the reachable states: the keys are distinct, as in every dictionary,
  and the dictionary is empty or holds no more slots than the limit.
\<close>

definition well_formed :: "seq_limit \<Rightarrow> 'v seq_msgs \<Rightarrow> bool" where
  "well_formed L m = (distinct (od_keys m) \<and> (m = [] \<or> \<not> exceeds (length m) L))"

subsection \<open>Notions of the statements\<close>

text \<open>
  The expected next fragment index, in the words of the specification: the fragment
  index of the previous slot plus one, or 1 when there is no prior slot or the fragment
  index of the sentence is 1.
\<close>

definition expected_fragment :: "'v seq_msgs \<Rightarrow> 'v vdm \<Rightarrow> int" where
  "expected_fragment m s =
     (if fragment s = 1 then 1
      else case od_get m (sequential_msg_id s) of
             None \<Rightarrow> 1
           | Some p \<Rightarrow> fragment p + 1)"

text \<open>
  \<open>fragments_in_order k n j ss\<close>: the sentences \<open>ss\<close> are the fragments \<open>j + 1\<close>, ...,
  \<open>n\<close>, in this order, of one message of \<open>n\<close> fragments with the sequential id \<open>k\<close>.
  With \<open>j = 0\<close> they are a whole message delivered in order.
\<close>

fun fragments_in_order :: "string \<Rightarrow> int \<Rightarrow> int \<Rightarrow> 'v vdm list \<Rightarrow> bool" where
  "fragments_in_order k n j [] = (j = n)"
| "fragments_in_order k n j (s # ss) =
     (count s = n \<and> fragment s = j + 1 \<and> sequential_msg_id s = k \<and>
      fragments_in_order k n (j + 1) ss)"

text \<open>What a complete sentence with the payload \<open>pl\<close> ends in: the decoder's word.\<close>

definition completed ::
  "'v python \<Rightarrow> (string \<Rightarrow> 'v list list option) \<Rightarrow> 'v vdm \<Rightarrow> string \<Rightarrow> 'v outcome" where
  "completed py unpack self pl =
     (case parse_complete_payload py unpack pl of
        Inl e \<Rightarrow> Raises e
      | Inr fs \<Rightarrow> Complete (self\<lparr>payload := pl, sub_fields := fs\<rparr>))"

subsection \<open>The sentence grammar\<close>

text \<open>
  The pattern \<^verbatim>\<open>NMEASentence.sentence_re\<close> is compiled with \<^verbatim>\<open>re.X | re.IGNORECASE\<close> and
  applied to a \<^verbatim>\<open>str\<close>. A character of a line is a code point below 256; \<open>is_space\<close> and
  \<open>is_word\<close> are the code points below 256 that \<^verbatim>\<open>\s\<close> and \<^verbatim>\<open>\w\<close> take in a \<^verbatim>\<open>str\<close>
  pattern: \<^verbatim>\<open>\s\<close> takes tab to carriage return, the four separators 28 to 31, the blank,
  NEL (133) and the no-break space (160); \<^verbatim>\<open>\w\<close> takes the underscore and what
  \<^verbatim>\<open>str.isalnum\<close> takes, which beyond ASCII are the Latin-1 letters, the superscript
  digits and the vulgar fractions.
\<close>

definition is_space :: "char \<Rightarrow> bool" where
  "is_space c =
     ((of_char c :: nat) \<in> {9, 10, 11, 12, 13, 28, 29, 30, 31, 32, 133, 160})"

definition is_word :: "char \<Rightarrow> bool" where
  "is_word c =
     (let n = (of_char c :: nat)
      in (48 \<le> n \<and> n \<le> 57) \<or> (65 \<le> n \<and> n \<le> 90) \<or> n = 95 \<or> (97 \<le> n \<and> n \<le> 122) \<or>
         n = 170 \<or> n = 178 \<or> n = 179 \<or> n = 181 \<or> n = 185 \<or> n = 186 \<or>
         (188 \<le> n \<and> n \<le> 190) \<or> (192 \<le> n \<and> n \<le> 214) \<or> (216 \<le> n \<and> n \<le> 246) \<or>
         (248 \<le> n \<and> n \<le> 255))"

text \<open>
  The other case of an ASCII letter, for \<^verbatim>\<open>re.IGNORECASE\<close>. The literals and ranges of
  the pattern are ASCII, and no code point from 128 to 255 has an ASCII character as its
  other case.
\<close>

definition swap_case :: "char \<Rightarrow> char" where
  "swap_case c =
     (let n = (of_char c :: nat)
      in if 65 \<le> n \<and> n \<le> 90 then char_of (n + 32)
         else if 97 \<le> n \<and> n \<le> 122 then char_of (n - 32)
         else c)"

datatype item = One char | Range char char

fun item_has :: "item \<Rightarrow> char \<Rightarrow> bool" where
  "item_has (One x) c = (c = x)"
| "item_has (Range a b) c = ((of_char a :: nat) \<le> of_char c \<and> (of_char c :: nat) \<le> of_char b)"

datatype cclass =
    Space                  \<comment> \<open>\<^verbatim>\<open>\s\<close>\<close>
  | Word                   \<comment> \<open>\<^verbatim>\<open>\w\<close>\<close>
  | Lit char               \<comment> \<open>a literal character\<close>
  | Bracket "item list"    \<comment> \<open>\<^verbatim>\<open>[...]\<close>\<close>
  | NotBracket "item list" \<comment> \<open>\<^verbatim>\<open>[^...]\<close>\<close>

fun in_class :: "cclass \<Rightarrow> char \<Rightarrow> bool" where
  "in_class Space c = is_space c"
| "in_class Word c = is_word c"
| "in_class (Lit x) c = (c = x \<or> swap_case c = x)"
| "in_class (Bracket items) c = (\<exists>i \<in> set items. item_has i c \<or> item_has i (swap_case c))"
| "in_class (NotBracket items) c = (\<not> (\<exists>i \<in> set items. item_has i c \<or> item_has i (swap_case c)))"

datatype regex =
    Nothing
  | Empty
  | Cls cclass
  | Then regex regex
  | Or regex regex
  | Many regex

text \<open>\<^verbatim>\<open>r?\<close>, \<^verbatim>\<open>r{n}\<close> and a sequence of items.\<close>

definition Maybe :: "regex \<Rightarrow> regex" where
  "Maybe r = Or r Empty"

fun Times :: "nat \<Rightarrow> regex \<Rightarrow> regex" where
  "Times 0 r = Empty"
| "Times (Suc n) r = Then r (Times n r)"

fun Sequence :: "regex list \<Rightarrow> regex" where
  "Sequence [] = Empty"
| "Sequence (r # rs) = Then r (Sequence rs)"

text \<open>
  \<^verbatim>\<open>$\<close> without \<^verbatim>\<open>re.MULTILINE\<close> holds at the end of the text and just before a
  newline that ends the text: as the last item of a pattern it lets one newline follow.
\<close>

definition Dollar :: regex where
  "Dollar = Maybe (Cls (Bracket [One (CHR 0x0A)]))"

fun nullable :: "regex \<Rightarrow> bool" where
  "nullable Nothing = False"
| "nullable Empty = True"
| "nullable (Cls c) = False"
| "nullable (Then a b) = (nullable a \<and> nullable b)"
| "nullable (Or a b) = (nullable a \<or> nullable b)"
| "nullable (Many a) = True"

fun deriv :: "char \<Rightarrow> regex \<Rightarrow> regex" where
  "deriv x Nothing = Nothing"
| "deriv x Empty = Nothing"
| "deriv x (Cls c) = (if in_class c x then Empty else Nothing)"
| "deriv x (Then a b) =
     (if nullable a then Or (Then (deriv x a) b) (deriv x b) else Then (deriv x a) b)"
| "deriv x (Or a b) = Or (deriv x a) (deriv x b)"
| "deriv x (Many a) = Then (deriv x a) (Many a)"

text \<open>\<^verbatim>\<open>pattern.match(line)\<close> returns a match object.\<close>

fun matches :: "regex \<Rightarrow> string \<Rightarrow> bool" where
  "matches r [] = nullable r"
| "matches r (x # xs) = matches (deriv x r) xs"

text \<open>The three alternatives of the group \<^verbatim>\<open>sentence_type\<close>, in the order of the pattern.\<close>

definition proprietary_pattern :: regex where
  "proprietary_pattern = Then (Cls (Lit CHR ''P'')) (Times 3 (Cls Word))"

definition query_pattern :: regex where
  "query_pattern =
     Sequence [Times 2 (Cls Word), Times 2 (Cls Word), Cls (Lit CHR ''Q''),
               Cls (Lit CHR '',''), Times 3 (Cls Word)]"

definition talker_pattern :: regex where
  "talker_pattern = Sequence [Times 2 (Cls Word), Times 3 (Cls Word), Cls (Lit CHR '','')]"

definition sentence_type_pattern :: regex where
  "sentence_type_pattern = Or proprietary_pattern (Or query_pattern talker_pattern)"

text \<open>The group \<^verbatim>\<open>checksum\<close> with the \<^verbatim>\<open>*\<close> before it.\<close>

definition checksum_pattern :: regex where
  "checksum_pattern =
     Then (Cls (Bracket [One CHR ''*'']))
       (Times 2 (Cls (Bracket [Range CHR ''A'' CHR ''F'', Range CHR ''0'' CHR ''9''])))"

definition sentence_re :: regex where
  "sentence_re =
     Sequence
       [Many (Cls Space),
        Maybe (Cls (Bracket [One CHR ''$'', One CHR ''|'', One CHR ''!''])),
        sentence_type_pattern,
        Many (Cls (NotBracket [One CHR ''*''])),
        Maybe checksum_pattern,
        Many (Cls Space),
        Many (Cls (Bracket [One (CHR 0x0D), One (CHR 0x0A)])),
        Dollar]"

text \<open>
  The groups of a match. The leading \<^verbatim>\<open>\s*\<close> and the mark cannot give a character back,
  since no sentence type begins with whitespace or a mark; \<^verbatim>\<open>*\<close> occurs in a matching
  line only before the checksum, so the group \<^verbatim>\<open>nmea_str\<close> is the text from the mark to
  the \<^verbatim>\<open>*\<close>, or to the end of the line where there is no checksum (the greedy
  \<^verbatim>\<open>[^*]*\<close> takes the trailing whitespace then); and the group \<^verbatim>\<open>sentence_type\<close> is the
  first alternative that fits, since the data can take what a longer alternative would.
  The lemma \<open>groups_of_match\<close> shows that these groups split every line that matches.
\<close>

definition after_mark :: "string \<Rightarrow> string" where
  "after_mark line =
     (case dropWhile is_space line of
        [] \<Rightarrow> []
      | c # rest \<Rightarrow>
          if in_class (Bracket [One CHR ''$'', One CHR ''|'', One CHR ''!'']) c then rest
          else c # rest)"

definition nmea_str :: "string \<Rightarrow> string" where
  "nmea_str line = takeWhile (\<lambda>c. c \<noteq> CHR ''*'') (after_mark line)"

definition checksum_group :: "string \<Rightarrow> string option" where
  "checksum_group line =
     (case dropWhile (\<lambda>c. c \<noteq> CHR ''*'') (after_mark line) of
        s # h1 # h2 # rest \<Rightarrow> Some [h1, h2]
      | _ \<Rightarrow> None)"

definition sentence_type_group :: "string \<Rightarrow> string" where
  "sentence_type_group line =
     (if matches proprietary_pattern (take 4 (nmea_str line)) then take 4 (nmea_str line)
      else if matches query_pattern (take 9 (nmea_str line)) then take 9 (nmea_str line)
      else take 6 (nmea_str line))"

definition data_group :: "string \<Rightarrow> string" where
  "data_group line = drop (length (sentence_type_group line)) (nmea_str line)"

subsection \<open>The parser of the sentence framework\<close>

text \<open>
  The checksum of NMEA 0183: the exclusive or of the character codes of the sentence
  between the mark and the \<^verbatim>\<open>*\<close>. The three example sentences in the docstring of
  \<^verbatim>\<open>VDM\<close> carry it (\<^verbatim>\<open>5C\<close>, \<^verbatim>\<open>3E\<close> and \<^verbatim>\<open>55\<close>).
\<close>

definition xor_checksum :: "string \<Rightarrow> nat" where
  "xor_checksum s = fold (\<lambda>c acc. xor acc (of_char c)) s 0"

text \<open>\<^verbatim>\<open>int(checksum, 16)\<close> on the two hexadecimal digits of the group.\<close>

definition hex_digit_value :: "char \<Rightarrow> nat" where
  "hex_digit_value c =
     (let n = (of_char c :: nat)
      in if 48 \<le> n \<and> n \<le> 57 then n - 48
         else if 65 \<le> n \<and> n \<le> 70 then n - 55
         else n - 87)"

definition hex_value :: "string \<Rightarrow> nat" where
  "hex_value hh = fold (\<lambda>c acc. 16 * acc + hex_digit_value c) hh 0"

definition checksum_valid :: "string \<Rightarrow> bool" where
  "checksum_valid line =
     (case checksum_group line of
        None \<Rightarrow> True
      | Some hh \<Rightarrow> hex_value hh = xor_checksum (nmea_str line))"

text \<open>
  Modelled from the spec: \<^verbatim>\<open>NMEASentence.parse\<close> of the sentence framework, which the
  source imports from the package \<^verbatim>\<open>pynmea2\<close>. The specification says of it: given a raw text line, produce
  a sentence record or fail with \<^verbatim>\<open>MalformedSentenceError\<close> if the line does not match the
  expected grammar (4.1); the framework is a checksum-validated tokenizer producing
  (sentence type, comma-delimited data, checksum), and a dispatch that constructs a typed
  record given a registered identifier (6). The grammar is \<open>sentence_re\<close>, from the
  source. The specification names neither the failure of the checksum validation nor
  that of the dispatch: they are \<open>ChecksumMismatch\<close> and \<open>UnregisteredType\<close> here. Which
  identifiers are registered is the parameter \<open>registered\<close>. The record is the triple of
  the tokenizer: the assignment of the fields and the constructor of the sentence class
  come after it.
\<close>

datatype parse_error = MalformedSentenceError | ChecksumMismatch | UnregisteredType

record token =
  sentence_type :: string
  data :: string
  checksum :: "string option"

definition parse :: "(string \<Rightarrow> bool) \<Rightarrow> string \<Rightarrow> parse_error + token" where
  "parse registered line =
     (if \<not> matches sentence_re line then Inl MalformedSentenceError
      else if \<not> checksum_valid line then Inl ChecksumMismatch
      else if \<not> registered (sentence_type_group line) then Inl UnregisteredType
      else Inr \<lparr>sentence_type = sentence_type_group line, data = data_group line,
                checksum = checksum_group line\<rparr>)"

text \<open>
  A registry for the examples: it holds \<^verbatim>\<open>VDM\<close>, the sentence class of the source, for
  every talker.
\<close>

definition vdm_registered :: "string \<Rightarrow> bool" where
  "vdm_registered ty = (length ty = 6 \<and> take 3 (drop 2 ty) = ''VDM'')"

subsection \<open>The grammar in words\<close>

text \<open>
  The parts of the grammar in the words of the specification, letters in either case: a
  proprietary identifier is \<^verbatim>\<open>P\<close> and three word characters; a query sentence is four
  word characters (talker and listener), \<^verbatim>\<open>Q\<close>, a comma and three word characters; a
  talker sentence is five word characters and the comma that ends the identifier; a
  checksum is \<^verbatim>\<open>*\<close> and two hexadecimal digits.
\<close>

definition hex_digit :: "char \<Rightarrow> bool" where
  "hex_digit c =
     (let n = (of_char c :: nat)
      in (48 \<le> n \<and> n \<le> 57) \<or> (65 \<le> n \<and> n \<le> 70) \<or> (97 \<le> n \<and> n \<le> 102))"

definition proprietary_id :: "string \<Rightarrow> bool" where
  "proprietary_id ty =
     (\<exists>p w. ty = p # w \<and> (p = CHR ''P'' \<or> p = CHR ''p'') \<and>
        length w = 3 \<and> (\<forall>x \<in> set w. is_word x))"

definition query_id :: "string \<Rightarrow> bool" where
  "query_id ty =
     (\<exists>t q s. ty = t @ q # CHR '','' # s \<and> length t = 4 \<and> (\<forall>x \<in> set t. is_word x) \<and>
        (q = CHR ''Q'' \<or> q = CHR ''q'') \<and> length s = 3 \<and> (\<forall>x \<in> set s. is_word x))"

definition talker_id :: "string \<Rightarrow> bool" where
  "talker_id ty = (\<exists>t. ty = t @ '','' \<and> length t = 5 \<and> (\<forall>x \<in> set t. is_word x))"

definition checksum_text :: "string \<Rightarrow> bool" where
  "checksum_text ck = (\<exists>h1 h2. ck = [CHR ''*'', h1, h2] \<and> hex_digit h1 \<and> hex_digit h2)"

text \<open>
  The shape of the claim: an optional leading \<^verbatim>\<open>$\<close> or \<^verbatim>\<open>!\<close>, a sentence-type
  identifier, the data, an optional checksum, optional trailing whitespace or newline.
\<close>

definition claimed_shape :: "string \<Rightarrow> bool" where
  "claimed_shape line =
     (\<exists>mark ty dat ck trail.
        line = mark @ ty @ dat @ ck @ trail \<and>
        (mark = [] \<or> mark = ''$'' \<or> mark = ''!'') \<and>
        (proprietary_id ty \<or> query_id ty \<or> talker_id ty) \<and>
        CHR ''*'' \<notin> set dat \<and>
        (ck = [] \<or> checksum_text ck) \<and>
        (\<forall>x \<in> set trail. is_space x))"

text \<open>The same with optional whitespace in front.\<close>

definition amended_shape :: "string \<Rightarrow> bool" where
  "amended_shape line =
     (\<exists>ws rest. line = ws @ rest \<and> (\<forall>x \<in> set ws. is_space x) \<and> claimed_shape rest)"


text \<open>
  The two shapes as patterns, built from the parts of \<open>sentence_re\<close>; the lemmas
  \<open>claimed_shape_pattern\<close> and \<open>amended_shape_pattern\<close> show that they accept the lines of
  the two shapes, and the shape of a given line is computed by them.
\<close>

definition claimed_pattern :: regex where
  "claimed_pattern =
     Sequence
       [Maybe (Cls (Bracket [One CHR ''$'', One CHR ''!''])),
        sentence_type_pattern,
        Many (Cls (NotBracket [One CHR ''*''])),
        Maybe checksum_pattern,
        Many (Cls Space)]"

definition amended_pattern :: regex where
  "amended_pattern = Then (Many (Cls Space)) claimed_pattern"

text \<open>The texts that a pattern describes.\<close>

definition conc :: "string set \<Rightarrow> string set \<Rightarrow> string set" where
  "conc A B = {u @ v | u v. u \<in> A \<and> v \<in> B}"

inductive_set star :: "string set \<Rightarrow> string set" for A :: "string set" where
  star_empty: "[] \<in> star A"
| star_more: "u \<in> A \<Longrightarrow> v \<in> star A \<Longrightarrow> u @ v \<in> star A"

fun lang :: "regex \<Rightarrow> string set" where
  "lang Nothing = {}"
| "lang Empty = {[]}"
| "lang (Cls c) = {[x] | x. in_class c x}"
| "lang (Then a b) = conc (lang a) (lang b)"
| "lang (Or a b) = lang a \<union> lang b"
| "lang (Many a) = star (lang a)"

subsection \<open>A small Python runtime and decoder for the examples\<close>

text \<open>
  The examples below run on this value type: integers, decimal fractions \<open>PDec m k\<close>
  (the number \<open>m / 10 ^ k\<close>), texts, legends (tuples of names, subscripted the way
  Python subscripts a tuple, negative indices from the end) and the functions
  \<open>PScale k\<close> that multiply an integer by \<open>k\<close>. The sample \<open>int\<close> and \<open>float\<close> read
  plain decimal numerals only.
\<close>

datatype pyval =
    PInt int
  | PDec int nat
  | PStr string
  | PLegend "string list"
  | PScale int

definition digit_val :: "char \<Rightarrow> nat option" where
  "digit_val c =
     (let n = (of_char c :: nat) in if 48 \<le> n \<and> n \<le> 57 then Some (n - 48) else None)"

fun digits_val :: "nat \<Rightarrow> string \<Rightarrow> nat option" where
  "digits_val acc [] = Some acc"
| "digits_val acc (c # cs) =
     (case digit_val c of None \<Rightarrow> None | Some d \<Rightarrow> digits_val (10 * acc + d) cs)"

definition sample_int :: "string \<Rightarrow> pyval option" where
  "sample_int s =
     (if s = [] then None
      else case digits_val 0 s of None \<Rightarrow> None | Some n \<Rightarrow> Some (PInt (int n)))"

definition sample_float :: "string \<Rightarrow> pyval option" where
  "sample_float s =
     (let whole = takeWhile (\<lambda>c. c \<noteq> CHR ''.'') s;
          frac = drop (Suc (length whole)) s
      in if whole = [] \<or> frac = [] \<or> length whole = length s then None
         else case digits_val 0 (whole @ frac) of
                None \<Rightarrow> None
              | Some n \<Rightarrow> Some (PDec (int n) (length frac)))"

definition sample_call :: "pyval \<Rightarrow> pyval \<Rightarrow> pyval option" where
  "sample_call f x =
     (case (f, x) of (PScale k, PInt n) \<Rightarrow> Some (PInt (k * n)) | _ \<Rightarrow> None)"

definition sample_getitem :: "pyval \<Rightarrow> pyval \<Rightarrow> pyval option" where
  "sample_getitem t x =
     (case (t, x) of
        (PLegend names, PInt i) \<Rightarrow>
          (if 0 \<le> i \<and> i < int (length names) then Some (PStr (names ! nat i))
           else if - int (length names) \<le> i \<and> i < 0
             then Some (PStr (names ! nat (int (length names) + i)))
           else None)
      | _ \<Rightarrow> None)"

definition sample_str :: "pyval \<Rightarrow> string option" where
  "sample_str v = (case v of PStr s \<Rightarrow> Some s | _ \<Rightarrow> None)"

definition sample_python :: "pyval python" where
  "sample_python =
     \<lparr>py_call = sample_call, py_getitem = sample_getitem, py_str = sample_str,
      py_int = sample_int, py_float = sample_float\<rparr>"

text \<open>
  A stand-in for the decoder of \<^verbatim>\<open>_ais.py\<close>: it rejects a payload that holds a blank
  and returns the payload itself in one field without a decoder otherwise.
\<close>

definition sample_unpack :: "string \<Rightarrow> pyval list list option" where
  "sample_unpack pl =
     (if CHR '' '' \<in> set pl then None
      else Some [[PStr ''armor'', PStr pl, PStr ''t'', PStr ''Armored payload'']])"

text \<open>A sentence on radio channel B: count, fragment number, message id, payload.\<close>

definition sentence :: "int \<Rightarrow> int \<Rightarrow> string \<Rightarrow> string \<Rightarrow> pyval vdm" where
  "sentence c f i p =
     \<lparr>count = c, fragment = f, sequential_msg_id = i, radio_code = ''B'', payload = p,
      fill_bits = ''0'', sub_fields = []\<rparr>"

section \<open>Properties\<close>

subsection \<open>Sentences without payload\<close>

text \<open>
  C8. A sentence whose payload is empty is returned unparsed; the dictionary of
  sequential messages after the call is the one before it, nothing is notified, and the
  result is the same whatever the dictionary and the limit are.
\<close>

theorem accept_empty_payload:
  "payload s = [] \<Longrightarrow>
   accept py unpack L m s = (m, [], Unparsed (s\<lparr>sub_fields := []\<rparr>))"
  by (simp add: accept_def)

theorem accept_empty_payload_witness:
  "accept sample_python sample_unpack (Limit 1) [(''7'', sentence 2 1 ''7'' ''AB'')]
     (sentence 1 1 [] []) =
   ([(''7'', sentence 2 1 ''7'' ''AB'')], [], Unparsed (sentence 1 1 [] []))"
  using accept_empty_payload [of "sentence 1 1 [] []" sample_python sample_unpack "Limit 1"
    "[(''7'', sentence 2 1 ''7'' ''AB'')]"]
  by (simp add: sentence_def)

subsection \<open>Fields with and without a decoder\<close>

lemma interpret_field_other_length:
  "length field \<noteq> 5 \<Longrightarrow> interpret_field py field = field"
  by (simp add: interpret_field_def)

lemma interpret_field_five:
  "interpret_field py [name, raw, ty, disp, dec] =
     [name, coerce_value py (decode_value py dec raw), ty, disp, raw, dec]"
  by (simp add: interpret_field_def)

text \<open>
  C10. When the decoder returns its fields, the interpretation returns one field for
  each of them, in the same order, and a field of fewer than five elements is returned
  as it is: no decoder is applied and its value is not coerced.
\<close>

theorem field_without_decoder_unchanged:
  "unpack pl = Some raw_fields \<Longrightarrow>
   (\<exists>out. parse_complete_payload py unpack pl = Inr out \<and>
      length out = length raw_fields \<and>
      (\<forall>i < length raw_fields. out ! i = interpret_field py (raw_fields ! i)) \<and>
      (\<forall>i < length raw_fields. length (raw_fields ! i) < 5 \<longrightarrow> out ! i = raw_fields ! i))"
  by (simp add: parse_complete_payload_def interpret_field_other_length)

theorem field_without_decoder_unchanged_witness:
  "sample_unpack ''42'' = Some [[PStr ''armor'', PStr ''42'', PStr ''t'', PStr ''Armored payload'']] \<and>
   parse_complete_payload sample_python sample_unpack ''42'' =
     Inr [[PStr ''armor'', PStr ''42'', PStr ''t'', PStr ''Armored payload'']]"
proof -
  let ?fs = "[[PStr ''armor'', PStr ''42'', PStr ''t'', PStr ''Armored payload'']]"
  have h: "sample_unpack ''42'' = Some ?fs"
    by (simp add: sample_unpack_def)
  from field_without_decoder_unchanged [of sample_unpack "''42''" ?fs sample_python, OF h]
  obtain out where
    o: "parse_complete_payload sample_python sample_unpack ''42'' = Inr out"
    and l: "length out = length ?fs"
    and u: "\<forall>i < length ?fs. length (?fs ! i) < 5 \<longrightarrow> out ! i = ?fs ! i"
    by blast
  from u have "out ! 0 = ?fs ! 0" by simp
  with l have "out = ?fs" by (cases out) simp_all
  with o h show ?thesis by simp
qed

text \<open>
  C7. For a field of five elements \<open>[name, raw, ty, disp, dec]\<close> the result is
  \<open>[name, v, ty, disp, raw, dec]\<close>, where, with \<open>val\<close> the decoded value:
  \<open>val\<close> is \<open>dec(raw)\<close> when that call returns; otherwise \<open>dec[raw]\<close> when that
  subscription returns; otherwise \<open>raw\<close>; and \<open>v\<close> is \<open>val\<close> when \<open>val\<close> is not a text,
  \<open>int(val)\<close> when that returns, otherwise \<open>float(val)\<close> when that returns, otherwise
  \<open>val\<close>.
\<close>

theorem decoder_then_coercion:
  "\<exists>val v.
     interpret_field py [name, raw, ty, disp, dec] = [name, v, ty, disp, raw, dec] \<and>
     (\<forall>y. py_call py dec raw = Some y \<longrightarrow> val = y) \<and>
     (\<forall>y. py_call py dec raw = None \<and> py_getitem py dec raw = Some y \<longrightarrow> val = y) \<and>
     (py_call py dec raw = None \<and> py_getitem py dec raw = None \<longrightarrow> val = raw) \<and>
     (py_str py val = None \<longrightarrow> v = val) \<and>
     (\<forall>s i. py_str py val = Some s \<and> py_int py s = Some i \<longrightarrow> v = i) \<and>
     (\<forall>s x. py_str py val = Some s \<and> py_int py s = None \<and> py_float py s = Some x
        \<longrightarrow> v = x) \<and>
     (\<forall>s. py_str py val = Some s \<and> py_int py s = None \<and> py_float py s = None
        \<longrightarrow> v = val)"
proof (intro exI conjI)
  show "interpret_field py [name, raw, ty, disp, dec] =
      [name, coerce_value py (decode_value py dec raw), ty, disp, raw, dec]"
    by (rule interpret_field_five)
  show "\<forall>y. py_call py dec raw = Some y \<longrightarrow> decode_value py dec raw = y"
    by (simp add: decode_value_def)
  show "\<forall>y. py_call py dec raw = None \<and> py_getitem py dec raw = Some y \<longrightarrow>
      decode_value py dec raw = y"
    by (simp add: decode_value_def)
  show "py_call py dec raw = None \<and> py_getitem py dec raw = None \<longrightarrow>
      decode_value py dec raw = raw"
    by (simp add: decode_value_def)
  show "py_str py (decode_value py dec raw) = None \<longrightarrow>
      coerce_value py (decode_value py dec raw) = decode_value py dec raw"
    by (simp add: coerce_value_def)
  show "\<forall>s i. py_str py (decode_value py dec raw) = Some s \<and> py_int py s = Some i \<longrightarrow>
      coerce_value py (decode_value py dec raw) = i"
    by (simp add: coerce_value_def)
  show "\<forall>s x. py_str py (decode_value py dec raw) = Some s \<and> py_int py s = None \<and>
      py_float py s = Some x \<longrightarrow> coerce_value py (decode_value py dec raw) = x"
    by (simp add: coerce_value_def)
  show "\<forall>s. py_str py (decode_value py dec raw) = Some s \<and> py_int py s = None \<and>
      py_float py s = None \<longrightarrow>
      coerce_value py (decode_value py dec raw) = decode_value py dec raw"
    by (simp add: coerce_value_def)
qed

theorem decoder_then_coercion_witness:
  "interpret_field sample_python
     [PStr ''status'', PInt 1, PStr ''e'', PStr ''Status'', PLegend [''5'', ''17'']] =
   [PStr ''status'', PInt 17, PStr ''e'', PStr ''Status'', PInt 1, PLegend [''5'', ''17'']]"
proof -
  let ?dec = "PLegend [''5'', ''17'']"
  from decoder_then_coercion [of sample_python "PStr ''status''" "PInt 1" "PStr ''e''"
      "PStr ''Status''" ?dec]
  obtain val v where
    out: "interpret_field sample_python
            [PStr ''status'', PInt 1, PStr ''e'', PStr ''Status'', ?dec] =
          [PStr ''status'', v, PStr ''e'', PStr ''Status'', PInt 1, ?dec]"
    and tab: "\<forall>y. py_call sample_python ?dec (PInt 1) = None \<and>
                 py_getitem sample_python ?dec (PInt 1) = Some y \<longrightarrow> val = y"
    and num: "\<forall>s i. py_str sample_python val = Some s \<and> py_int sample_python s = Some i
                 \<longrightarrow> v = i"
    by blast
  have "py_call sample_python ?dec (PInt 1) = None"
    by (simp add: sample_python_def sample_call_def)
  moreover have "py_getitem sample_python ?dec (PInt 1) = Some (PStr ''17'')"
    by (simp add: sample_python_def sample_getitem_def)
  ultimately have val: "val = PStr ''17''"
    using tab by blast
  have "py_str sample_python val = Some ''17''"
    by (simp add: val sample_python_def sample_str_def)
  moreover have "py_int sample_python ''17'' = Some (PInt 17)"
    by (simp add: sample_python_def sample_int_def digit_val_def)
  ultimately have "v = PInt 17"
    using num by blast
  with out show ?thesis by simp
qed

subsection \<open>The dictionary operations and the eviction block\<close>

lemma od_keys_rebind [simp]: "od_keys (od_rebind m k v) = od_keys m"
  by (induction m) (auto simp: od_keys_def od_rebind_def)

lemma length_od_rebind [simp]: "length (od_rebind m k v) = length m"
  by (simp add: od_rebind_def)

lemma od_keys_set:
  "od_keys (od_set m k v) = (if k \<in> set (od_keys m) then od_keys m else od_keys m @ [k])"
  by (simp add: od_set_def) (simp add: od_keys_def)

lemma od_set_has_key: "k \<in> set (od_keys (od_set m k v))"
  by (simp add: od_keys_set)

lemma od_set_not_empty: "od_set m k v \<noteq> []"
  using od_set_has_key [of k m v] by (auto simp: od_keys_def)

lemma distinct_od_set: "distinct (od_keys m) \<Longrightarrow> distinct (od_keys (od_set m k v))"
  by (simp add: od_keys_set)

lemma od_get_None_iff: "od_get m k = None \<longleftrightarrow> k \<notin> set (od_keys m)"
  by (simp add: od_get_def od_keys_def map_of_eq_None_iff)

lemma od_get_rebind:
  "od_get (od_rebind m k v) k' =
     (if k' = k then (if k \<in> set (od_keys m) then Some v else None) else od_get m k')"
  by (induction m) (force simp: od_get_def od_rebind_def od_keys_def)+

lemma od_get_append_new:
  "k \<notin> set (od_keys m) \<Longrightarrow>
   od_get (m @ [(k, v)]) k' = (if k' = k then Some v else od_get m k')"
  by (induction m) (auto simp: od_get_def od_keys_def)

lemma od_get_set: "od_get (od_set m k v) k' = (if k' = k then Some v else od_get m k')"
  by (simp add: od_set_def od_get_rebind od_get_append_new)

lemma od_without_first:
  "distinct (od_keys ((k, v) # rest)) \<Longrightarrow> od_without ((k, v) # rest) k = rest"
  by (auto simp: od_without_def od_keys_def filter_id_conv image_iff)

lemma od_keys_without: "od_keys (od_without m k) = filter (\<lambda>k'. k' \<noteq> k) (od_keys m)"
  by (induction m) (auto simp: od_without_def od_keys_def)

lemma od_without_rebind: "od_without (od_rebind m k v) k = od_without m k"
  by (induction m) (auto simp: od_without_def od_rebind_def)

lemma length_od_without: "length (od_without m k) \<le> length m"
  by (simp add: od_without_def)

lemma od_get_without: "od_get (od_without m k) k' = (if k' = k then None else od_get m k')"
  by (induction m) (auto simp: od_without_def od_get_def)

lemma exceeds_mono: "exceeds n L \<Longrightarrow> n \<le> n' \<Longrightarrow> exceeds n' L"
  by (cases L) (auto simp: exceeds_def)

lemma enforce_limit_within: "\<not> exceeds (length m) L \<Longrightarrow> enforce_limit L m = Inr (m, [])"
  by (simp add: enforce_limit_def)

lemma enforce_limit_evicts:
  "exceeds (length ((k, v) # rest)) L \<Longrightarrow> distinct (od_keys ((k, v) # rest)) \<Longrightarrow>
   enforce_limit L ((k, v) # rest) = Inr (rest, [LimitReached k])"
  using od_without_first [of k v rest]
  by (simp add: enforce_limit_def od_first_def od_pop_def od_keys_def)

text \<open>What the eviction block leaves of a dictionary, and what it notifies.\<close>

lemma enforce_limit_cases:
  assumes "distinct (od_keys m)" and "m \<noteq> []"
  shows "enforce_limit L m =
    Inr (if exceeds (length m) L then (tl m, [LimitReached (fst (hd m))]) else (m, []))"
proof (cases "exceeds (length m) L")
  case False
  then show ?thesis by (simp add: enforce_limit_within)
next
  case True
  from assms(2) obtain k v rest where m: "m = (k, v) # rest"
    by (cases m) auto
  with True assms(1) show ?thesis
    using enforce_limit_evicts [of k v rest L] by simp
qed

lemma check_fragment_present:
  assumes "sequential_msg_id self \<in> set (od_keys m)"
  shows "check_fragment py unpack m notes last_frag pp self =
    (if last_frag + 1 \<noteq> fragment self then
       (od_without m (sequential_msg_id self), notes,
        Raises (IncompleteMessageError (last_frag + 1)))
     else if count self = fragment self then
       (od_without m (sequential_msg_id self), notes,
        case parse_complete_payload py unpack (pp @ payload self) of
          Inl e \<Rightarrow> Raises e
        | Inr fs \<Rightarrow> Complete (self\<lparr>payload := pp @ payload self, sub_fields := fs\<rparr>))
     else
       (od_rebind m (sequential_msg_id self) (self\<lparr>payload := pp @ payload self\<rparr>), notes,
        Pending (self\<lparr>payload := pp @ payload self\<rparr>)))"
  using assms
  by (simp add: check_fragment_def od_pop_def Let_def is_complete_def od_without_rebind
      split: sum.split)

lemma check_fragment_absent:
  assumes "sequential_msg_id self \<notin> set (od_keys m)"
  shows "check_fragment py unpack m notes last_frag pp self =
    (if last_frag + 1 \<noteq> fragment self \<or> count self = fragment self then
       (m, notes, Raises (KeyError (sequential_msg_id self)))
     else (m, notes, Pending (self\<lparr>payload := pp @ payload self\<rparr>)))"
proof -
  have "od_rebind m (sequential_msg_id self) v = m" for v
    using assms by (induction m) (auto simp: od_rebind_def od_keys_def)
  with assms show ?thesis
    by (simp add: check_fragment_def od_pop_def Let_def is_complete_def)
qed

lemma parse_payload_unfold:
  assumes "distinct (od_keys m)"
  shows "parse_payload py unpack L m self =
    (let m1 = od_set m (sequential_msg_id self) self;
         ev = exceeds (length m1) L
     in check_fragment py unpack (if ev then tl m1 else m1)
          (if ev then [LimitReached (fst (hd m1))] else [])
          (fst (previous (od_get m (sequential_msg_id self)) self))
          (snd (previous (od_get m (sequential_msg_id self)) self)) self)"
proof -
  have "enforce_limit L (od_set m (sequential_msg_id self) self) =
    Inr (if exceeds (length (od_set m (sequential_msg_id self) self)) L
         then (tl (od_set m (sequential_msg_id self) self),
               [LimitReached (fst (hd (od_set m (sequential_msg_id self) self)))])
         else (od_set m (sequential_msg_id self) self, []))"
    by (rule enforce_limit_cases) (simp_all add: distinct_od_set assms od_set_not_empty)
  then show ?thesis
    by (simp add: parse_payload_def Let_def split: prod.split)
qed

lemma at_least_one_exceeds: "at_least_one L \<Longrightarrow> \<not> exceeds (Suc 0) L"
  by (cases L) (auto simp: at_least_one_def exceeds_def)

lemma at_least_one_empty: "at_least_one L \<Longrightarrow> \<not> exceeds 0 L"
  by (cases L) (auto simp: at_least_one_def exceeds_def)

text \<open>Within a limit of at least one, the slot just set is still there after the eviction.\<close>

lemma slot_survives:
  assumes "at_least_one L" and "\<not> exceeds (length m) L" and "distinct (od_keys m)"
  shows "od_get (if exceeds (length (od_set m k v)) L then tl (od_set m k v) else od_set m k v) k
    = Some v"
proof (cases "k \<in> set (od_keys m)")
  case True
  then have "length (od_set m k v) = length m"
    by (simp add: od_set_def)
  with assms(2) show ?thesis
    by (simp add: od_get_set)
next
  case False
  then have m1: "od_set m k v = m @ [(k, v)]"
    by (simp add: od_set_def)
  show ?thesis
  proof (cases "exceeds (length (od_set m k v)) L")
    case False
    then show ?thesis by (simp add: od_get_set)
  next
    case True
    have "m \<noteq> []"
    proof
      assume "m = []"
      with True m1 have "exceeds (Suc 0) L" by simp
      with assms(1) show False by (simp add: at_least_one_exceeds)
    qed
    then have tl: "tl (m @ [(k, v)]) = tl m @ [(k, v)]"
      by simp
    have "set (od_keys (tl m)) \<subseteq> set (od_keys m)"
      by (cases m) (auto simp: od_keys_def)
    with False have "k \<notin> set (od_keys (tl m))"
      by blast
    with True m1 tl show ?thesis
      by (simp add: od_get_append_new)
  qed
qed

lemma od_get_Some_key: "od_get m k = Some v \<Longrightarrow> k \<in> set (od_keys m)"
  using od_get_None_iff [of m k] by auto

text \<open>\<^verbatim>\<open>parse_payload\<close> on a dictionary within a limit of at least one.\<close>

lemma parse_payload_within:
  assumes "at_least_one L" and "\<not> exceeds (length m) L" and "distinct (od_keys m)"
  shows "parse_payload py unpack L m self =
    (let k = sequential_msg_id self;
         m1 = od_set m k self;
         ev = exceeds (length m1) L;
         m2 = (if ev then tl m1 else m1);
         notes = (if ev then [LimitReached (fst (hd m1))] else []);
         last_frag = fst (previous (od_get m k) self);
         pp = snd (previous (od_get m k) self)
     in if last_frag + 1 \<noteq> fragment self then
          (od_without m2 k, notes, Raises (IncompleteMessageError (last_frag + 1)))
        else if count self = fragment self then
          (od_without m2 k, notes,
           case parse_complete_payload py unpack (pp @ payload self) of
             Inl e \<Rightarrow> Raises e
           | Inr fs \<Rightarrow> Complete (self\<lparr>payload := pp @ payload self, sub_fields := fs\<rparr>))
        else
          (od_rebind m2 k (self\<lparr>payload := pp @ payload self\<rparr>), notes,
           Pending (self\<lparr>payload := pp @ payload self\<rparr>)))"
proof -
  let ?k = "sequential_msg_id self"
  let ?m1 = "od_set m ?k self"
  let ?m2 = "if exceeds (length ?m1) L then tl ?m1 else ?m1"
  have "od_get ?m2 ?k = Some self"
    using assms by (rule slot_survives)
  then have "?k \<in> set (od_keys ?m2)"
    by (rule od_get_Some_key)
  then show ?thesis
    unfolding parse_payload_unfold [OF assms(3)] Let_def
    by (rule check_fragment_present)
qed

lemma check_fragment_state:
  "state_of (check_fragment py unpack m notes last_frag pp self) = m \<or>
   state_of (check_fragment py unpack m notes last_frag pp self) =
     od_without m (sequential_msg_id self) \<or>
   (\<exists>v. state_of (check_fragment py unpack m notes last_frag pp self) =
     od_rebind m (sequential_msg_id self) v)"
proof (cases "sequential_msg_id self \<in> set (od_keys m)")
  case True
  then show ?thesis
    by (auto simp: check_fragment_present state_of_def)
next
  case False
  then show ?thesis
    by (simp add: check_fragment_absent state_of_def)
qed

lemma well_formed_shrink:
  assumes "well_formed L m" and "distinct (od_keys m')" and "length m' \<le> length m"
  shows "well_formed L m'"
  using assms exceeds_mono [of "length m'" L "length m"]
  by (auto simp: well_formed_def)

lemma distinct_od_without: "distinct (od_keys m) \<Longrightarrow> distinct (od_keys (od_without m k))"
  by (simp add: od_keys_without)

lemma distinct_tl_keys: "distinct (od_keys m) \<Longrightarrow> distinct (od_keys (tl m))"
  by (cases m) (auto simp: od_keys_def)

lemma well_formed_after_eviction:
  assumes "well_formed L m"
  shows "well_formed L (if exceeds (length (od_set m k v)) L then tl (od_set m k v)
                         else od_set m k v)"
proof (cases "exceeds (length (od_set m k v)) L")
  case False
  with assms show ?thesis
    by (simp add: well_formed_def distinct_od_set)
next
  case True
  have d: "distinct (od_keys (tl (od_set m k v)))"
    using assms by (simp add: well_formed_def distinct_od_set distinct_tl_keys)
  have len: "length (tl (od_set m k v)) \<le> length m"
    by (simp add: od_set_def)
  show ?thesis
  proof (cases "m = []")
    case True
    then have "tl (od_set m k v) = []"
      by (simp add: od_set_def od_keys_def)
    with \<open>exceeds (length (od_set m k v)) L\<close> show ?thesis
      by (simp add: well_formed_def od_keys_def)
  next
    case False
    with True assms d len show ?thesis
      using well_formed_shrink [of L m "tl (od_set m k v)"] by simp
  qed
qed

lemma parse_payload_well_formed:
  assumes "well_formed L m"
  shows "well_formed L (state_of (parse_payload py unpack L m self))"
proof -
  let ?k = "sequential_msg_id self"
  let ?m2 = "if exceeds (length (od_set m ?k self)) L then tl (od_set m ?k self)
             else od_set m ?k self"
  let ?st = "state_of (parse_payload py unpack L m self)"
  have wf2: "well_formed L ?m2"
    using assms by (rule well_formed_after_eviction)
  have d: "distinct (od_keys m)"
    using assms by (simp add: well_formed_def)
  have "?st = ?m2 \<or> ?st = od_without ?m2 ?k \<or> (\<exists>v. ?st = od_rebind ?m2 ?k v)"
    unfolding parse_payload_unfold [OF d] Let_def by (rule check_fragment_state)
  moreover have "well_formed L (od_without ?m2 ?k)"
    using wf2
    by (rule well_formed_shrink)
      (use wf2 in \<open>simp_all add: well_formed_def distinct_od_without length_od_without\<close>)
  moreover have "well_formed L (od_rebind ?m2 ?k v)" for v
    using wf2
    by (rule well_formed_shrink) (use wf2 in \<open>simp_all add: well_formed_def\<close>)
  ultimately show ?thesis
    using wf2 by auto
qed

lemma accept_well_formed:
  "well_formed L m \<Longrightarrow> well_formed L (state_of (accept py unpack L m s))"
  by (simp add: accept_def Let_def parse_payload_well_formed) (simp add: state_of_def)

lemma reachable_well_formed: "reachable py unpack L m \<Longrightarrow> well_formed L m"
proof (induction rule: reachable.induct)
  case initial
  show ?case by (simp add: well_formed_def od_keys_def)
next
  case (call m s)
  then show ?case by (simp add: accept_well_formed)
qed

lemma reachable_within:
  assumes "reachable py unpack L m" and "at_least_one L"
  shows "\<not> exceeds (length m) L" and "distinct (od_keys m)"
  using reachable_well_formed [OF assms(1)] at_least_one_empty [OF assms(2)]
  by (auto simp: well_formed_def)

lemma od_pop_present: "k \<in> set (od_keys m) \<Longrightarrow> od_pop m k = Inr (od_without m k)"
  by (simp add: od_pop_def)

lemma enforce_limit_od_set:
  assumes "distinct (od_keys m)"
  shows "enforce_limit L (od_set m k v) =
    Inr (if exceeds (length (od_set m k v)) L
         then (tl (od_set m k v), [LimitReached (fst (hd (od_set m k v)))])
         else (od_set m k v, []))"
  by (rule enforce_limit_cases) (simp_all add: distinct_od_set assms od_set_not_empty)

lemma parse_complete_payload_error:
  "parse_complete_payload py unpack pl = Inl e \<Longrightarrow> e = DecodeError"
  by (auto simp: parse_complete_payload_def split: option.splits)

lemma removal_present:
  assumes "at_least_one L" and "\<not> exceeds (length m) L" and "distinct (od_keys m)"
  shows "\<exists>m2 notes. enforce_limit L (od_set m k v) = Inr (m2, notes) \<and>
    k \<in> set (od_keys m2) \<and> od_pop m2 k = Inr (od_without m2 k)"
proof -
  let ?m1 = "od_set m k v"
  let ?m2 = "if exceeds (length ?m1) L then tl ?m1 else ?m1"
  have "od_get ?m2 k = Some v"
    using assms by (rule slot_survives)
  then have k: "k \<in> set (od_keys ?m2)"
    by (rule od_get_Some_key)
  have "enforce_limit L ?m1 =
      Inr (?m2, if exceeds (length ?m1) L then [LimitReached (fst (hd ?m1))] else [])"
    by (simp add: enforce_limit_od_set assms)
  with k od_pop_present [OF k] show ?thesis
    by blast
qed

lemma parse_payload_no_KeyError:
  assumes "at_least_one L" and "\<not> exceeds (length m) L" and "distinct (od_keys m)"
  shows "outcome_of (parse_payload py unpack L m self) \<noteq> Raises (KeyError key)"
  unfolding parse_payload_within [OF assms] Let_def outcome_of_def
  by (auto split: sum.split dest: parse_complete_payload_error)

subsection \<open>Removal of the slot of the current message\<close>

text \<open>
  C9. In every state reachable under a limit of at least one, the key of the current
  sentence is in the dictionary after the eviction block, so the \<^verbatim>\<open>pop\<close> of that key
  returns (on an ordering violation and on completion alike) and \<^verbatim>\<open>parse_payload\<close>
  never raises \<^verbatim>\<open>KeyError\<close>. With the limit 0 the eviction block removes the slot just
  inserted, and the later \<^verbatim>\<open>pop\<close> raises \<^verbatim>\<open>KeyError\<close>: on an out-of-turn fragment in
  place of \<^verbatim>\<open>IncompleteMessageError\<close>, on a complete sentence in place of the result.
\<close>

theorem removal_never_fails:
  "(\<forall>(py :: 'a python) unpack L m self.
      at_least_one L \<longrightarrow> reachable py unpack L m \<longrightarrow>
      (\<exists>m2 notes.
         enforce_limit L (od_set m (sequential_msg_id self) self) = Inr (m2, notes) \<and>
         sequential_msg_id self \<in> set (od_keys m2) \<and>
         od_pop m2 (sequential_msg_id self) = Inr (od_without m2 (sequential_msg_id self))) \<and>
      (\<forall>key. outcome_of (parse_payload py unpack L m self) \<noteq> Raises (KeyError key))) \<and>
   (\<forall>(py :: 'a python) unpack.
      parse_payload py unpack (Limit 0) []
        \<lparr>count = 2, fragment = 2, sequential_msg_id = ''9'', radio_code = ''B'',
         payload = ''X'', fill_bits = ''0'', sub_fields = []\<rparr> =
      ([], [LimitReached ''9''], Raises (KeyError ''9''))) \<and>
   (\<forall>(py :: 'a python) unpack.
      parse_payload py unpack (Limit 0) []
        \<lparr>count = 1, fragment = 1, sequential_msg_id = [], radio_code = ''B'',
         payload = ''X'', fill_bits = ''0'', sub_fields = []\<rparr> =
      ([], [LimitReached []], Raises (KeyError [])))"
proof (intro conjI allI impI)
  fix py :: "'a python" and unpack L m and self :: "'a vdm"
  assume L: "at_least_one L" and r: "reachable py unpack L m"
  show "\<exists>m2 notes.
      enforce_limit L (od_set m (sequential_msg_id self) self) = Inr (m2, notes) \<and>
      sequential_msg_id self \<in> set (od_keys m2) \<and>
      od_pop m2 (sequential_msg_id self) = Inr (od_without m2 (sequential_msg_id self))"
    using L reachable_within [OF r L] by (rule removal_present)
next
  fix py :: "'a python" and unpack L m key and self :: "'a vdm"
  assume L: "at_least_one L" and r: "reachable py unpack L m"
  show "outcome_of (parse_payload py unpack L m self) \<noteq> Raises (KeyError key)"
    using L reachable_within [OF r L] by (rule parse_payload_no_KeyError)
next
  fix py :: "'a python" and unpack
  show "parse_payload py unpack (Limit 0) []
        \<lparr>count = 2, fragment = 2, sequential_msg_id = ''9'', radio_code = ''B'',
         payload = ''X'', fill_bits = ''0'', sub_fields = []\<rparr> =
      ([], [LimitReached ''9''], Raises (KeyError ''9''))"
    by (simp add: parse_payload_def od_get_def od_set_def od_keys_def enforce_limit_def
        exceeds_def od_first_def od_pop_def od_without_def previous_def check_fragment_def)
next
  fix py :: "'a python" and unpack
  show "parse_payload py unpack (Limit 0) []
        \<lparr>count = 1, fragment = 1, sequential_msg_id = [], radio_code = ''B'',
         payload = ''X'', fill_bits = ''0'', sub_fields = []\<rparr> =
      ([], [LimitReached []], Raises (KeyError []))"
    by (simp add: parse_payload_def od_get_def od_set_def od_keys_def enforce_limit_def
        exceeds_def od_first_def od_pop_def od_without_def previous_def check_fragment_def
        od_rebind_def is_complete_def)
qed

theorem removal_never_fails_witness:
  "at_least_one (Limit 1) \<and> reachable sample_python sample_unpack (Limit 1) [] \<and>
   (\<forall>key. outcome_of (parse_payload sample_python sample_unpack (Limit 1) []
       (sentence 2 2 ''9'' ''X'')) \<noteq> Raises (KeyError key))"
proof -
  have a: "at_least_one (Limit 1)"
    by (simp add: at_least_one_def)
  have r: "reachable sample_python sample_unpack (Limit 1) []"
    by (rule reachable.initial)
  from removal_never_fails [where 'a = pyval] a r
  have "\<forall>key. outcome_of (parse_payload sample_python sample_unpack (Limit 1) []
       (sentence 2 2 ''9'' ''X'')) \<noteq> Raises (KeyError key)"
    by blast
  with a r show ?thesis by blast
qed

lemma check_fragment_notes:
  "notes_of (check_fragment py unpack m notes last_frag pp self) = notes"
proof (cases "sequential_msg_id self \<in> set (od_keys m)")
  case True
  then show ?thesis
    by (simp add: check_fragment_present notes_of_def)
next
  case False
  then show ?thesis
    by (simp add: check_fragment_absent notes_of_def)
qed

lemma check_fragment_other_slots:
  assumes "k' \<noteq> sequential_msg_id self"
  shows "od_get (state_of (check_fragment py unpack m notes last_frag pp self)) k' = od_get m k'"
  using check_fragment_state [of py unpack m "notes" last_frag pp self] assms
  by (auto simp: od_get_without od_get_rebind)

lemma check_fragment_keys:
  "set (od_keys (state_of (check_fragment py unpack m notes last_frag pp self)))
     \<subseteq> set (od_keys m)"
  using check_fragment_state [of py unpack m "notes" last_frag pp self]
  by (auto simp: od_keys_without)

lemma eviction_step:
  assumes d: "distinct (od_keys m)"
    and ev: "exceeds (length (od_set m (sequential_msg_id self) self)) L"
  shows "\<exists>old v rest.
    od_set m (sequential_msg_id self) self = (old, v) # rest \<and>
    enforce_limit L (od_set m (sequential_msg_id self) self) = Inr (rest, [LimitReached old]) \<and>
    old \<notin> set (od_keys rest) \<and>
    parse_payload py unpack L m self =
      check_fragment py unpack rest [LimitReached old]
        (fst (previous (od_get m (sequential_msg_id self)) self))
        (snd (previous (od_get m (sequential_msg_id self)) self)) self \<and>
    notes_of (parse_payload py unpack L m self) = [LimitReached old] \<and>
    old \<notin> set (od_keys (state_of (parse_payload py unpack L m self))) \<and>
    (\<forall>k'. k' \<noteq> sequential_msg_id self \<longrightarrow>
       od_get (state_of (parse_payload py unpack L m self)) k' = od_get rest k')"
proof -
  let ?k = "sequential_msg_id self"
  let ?m1 = "od_set m ?k self"
  obtain old v rest where m1: "?m1 = (old, v) # rest"
    using od_set_not_empty [of m ?k self] by (cases ?m1) auto
  have d1: "distinct (od_keys ((old, v) # rest))"
    using distinct_od_set [OF d, of ?k self] m1 by simp
  then have old: "old \<notin> set (od_keys rest)"
    by (simp add: od_keys_def)
  have e: "enforce_limit L ?m1 = Inr (rest, [LimitReached old])"
    using ev d1 m1 enforce_limit_evicts [of old v rest L] by simp
  have p: "parse_payload py unpack L m self =
      check_fragment py unpack rest [LimitReached old]
        (fst (previous (od_get m ?k) self)) (snd (previous (od_get m ?k) self)) self"
    using ev m1 by (simp add: parse_payload_unfold [OF d] Let_def)
  have "old \<notin> set (od_keys (state_of (parse_payload py unpack L m self)))"
    unfolding p using old check_fragment_keys by blast
  with m1 e old p show ?thesis
    by (simp add: check_fragment_notes check_fragment_other_slots)
qed

lemma no_eviction_step:
  assumes d: "distinct (od_keys m)"
    and ev: "\<not> exceeds (length (od_set m (sequential_msg_id self) self)) L"
  shows "enforce_limit L (od_set m (sequential_msg_id self) self) =
      Inr (od_set m (sequential_msg_id self) self, []) \<and>
    notes_of (parse_payload py unpack L m self) = []"
  using ev by (simp add: enforce_limit_within parse_payload_unfold [OF d] Let_def
      check_fragment_notes)

subsection \<open>Eviction at the limit\<close>

text \<open>
  C5. When the dictionary, after the slot of the current sentence is set, holds more
  slots than the limit, the eviction block returns without error: it removes the first
  entry \<open>old\<close> of the dictionary and nothing else, and \<^verbatim>\<open>parse_payload\<close> goes on with
  the fragment check on the rest. The call notifies once, naming \<open>old\<close>; \<open>old\<close> is not
  a key of the state after the call, and every slot of another message than the
  current one is as the eviction left it. In particular, with the limit 1 and one
  message \<open>a\<close> in flight, a sentence of another message evicts \<open>a\<close> and notifies once,
  naming \<open>a\<close>.
\<close>

theorem eviction_of_oldest:
  "(\<forall>(py :: 'a python) unpack L m self.
      distinct (od_keys m) \<longrightarrow>
      exceeds (length (od_set m (sequential_msg_id self) self)) L \<longrightarrow>
      (\<exists>old v rest.
         od_set m (sequential_msg_id self) self = (old, v) # rest \<and>
         enforce_limit L (od_set m (sequential_msg_id self) self) =
           Inr (rest, [LimitReached old]) \<and>
         old \<notin> set (od_keys rest) \<and>
         parse_payload py unpack L m self =
           check_fragment py unpack rest [LimitReached old]
             (fst (previous (od_get m (sequential_msg_id self)) self))
             (snd (previous (od_get m (sequential_msg_id self)) self)) self \<and>
         notes_of (parse_payload py unpack L m self) = [LimitReached old] \<and>
         old \<notin> set (od_keys (state_of (parse_payload py unpack L m self))) \<and>
         (\<forall>k'. k' \<noteq> sequential_msg_id self \<longrightarrow>
            od_get (state_of (parse_payload py unpack L m self)) k' = od_get rest k'))) \<and>
   (\<forall>(py :: 'a python) unpack a v self.
      sequential_msg_id self \<noteq> a \<longrightarrow>
      notes_of (parse_payload py unpack (Limit 1) [(a, v)] self) = [LimitReached a] \<and>
      a \<notin> set (od_keys (state_of (parse_payload py unpack (Limit 1) [(a, v)] self))))"
proof (intro conjI allI impI)
  fix py :: "'a python" and unpack L m and self :: "'a vdm"
  assume "distinct (od_keys m)"
    and "exceeds (length (od_set m (sequential_msg_id self) self)) L"
  then show "\<exists>old v rest.
         od_set m (sequential_msg_id self) self = (old, v) # rest \<and>
         enforce_limit L (od_set m (sequential_msg_id self) self) =
           Inr (rest, [LimitReached old]) \<and>
         old \<notin> set (od_keys rest) \<and>
         parse_payload py unpack L m self =
           check_fragment py unpack rest [LimitReached old]
             (fst (previous (od_get m (sequential_msg_id self)) self))
             (snd (previous (od_get m (sequential_msg_id self)) self)) self \<and>
         notes_of (parse_payload py unpack L m self) = [LimitReached old] \<and>
         old \<notin> set (od_keys (state_of (parse_payload py unpack L m self))) \<and>
         (\<forall>k'. k' \<noteq> sequential_msg_id self \<longrightarrow>
            od_get (state_of (parse_payload py unpack L m self)) k' = od_get rest k')"
    by (rule eviction_step)
next
  fix py :: "'a python" and unpack a and v self :: "'a vdm"
  assume ne: "sequential_msg_id self \<noteq> a"
  have d: "distinct (od_keys [(a, v)])"
    by (simp add: od_keys_def)
  have s: "od_set [(a, v)] (sequential_msg_id self) self = [(a, v), (sequential_msg_id self, self)]"
    using ne by (simp add: od_set_def od_keys_def)
  then have ev: "exceeds (length (od_set [(a, v)] (sequential_msg_id self) self)) (Limit 1)"
    by (simp add: exceeds_def)
  from eviction_step [OF d ev, of py unpack] s
  have "notes_of (parse_payload py unpack (Limit 1) [(a, v)] self) = [LimitReached a]"
    and "a \<notin> set (od_keys (state_of (parse_payload py unpack (Limit 1) [(a, v)] self)))"
    by auto
  then show "notes_of (parse_payload py unpack (Limit 1) [(a, v)] self) = [LimitReached a]"
    and "a \<notin> set (od_keys (state_of (parse_payload py unpack (Limit 1) [(a, v)] self)))"
    by simp_all
qed

theorem eviction_of_oldest_witness:
  "distinct (od_keys [(''3'', sentence 2 1 ''3'' ''AAAA'')]) \<and>
   exceeds (length (od_set [(''3'', sentence 2 1 ''3'' ''AAAA'')] ''4'' (sentence 2 1 ''4'' ''C'')))
     (Limit 1) \<and>
   notes_of (parse_payload sample_python sample_unpack (Limit 1)
     [(''3'', sentence 2 1 ''3'' ''AAAA'')] (sentence 2 1 ''4'' ''C'')) = [LimitReached ''3'']"
proof -
  let ?m = "[(''3'', sentence 2 1 ''3'' ''AAAA'')]"
  let ?s = "sentence 2 1 ''4'' ''C''"
  have k: "sequential_msg_id ?s = ''4''"
    by (simp add: sentence_def)
  have d: "distinct (od_keys ?m)"
    by (simp add: od_keys_def)
  have s: "od_set ?m ''4'' ?s = [(''3'', sentence 2 1 ''3'' ''AAAA''), (''4'', ?s)]"
    by (simp add: od_set_def od_keys_def)
  then have ev: "exceeds (length (od_set ?m ''4'' ?s)) (Limit 1)"
    by (simp add: exceeds_def)
  from eviction_of_oldest [where 'a = pyval] d ev k
  obtain old v rest where
    "od_set ?m ''4'' ?s = (old, v) # rest"
    and "notes_of (parse_payload sample_python sample_unpack (Limit 1) ?m ?s) = [LimitReached old]"
    by metis
  with s have "notes_of (parse_payload sample_python sample_unpack (Limit 1) ?m ?s) =
      [LimitReached ''3'']"
    by simp
  with d ev show ?thesis by blast
qed

subsection \<open>The constructor within the limit\<close>

lemma previous_sub_fields [simp]: "previous p (s\<lparr>sub_fields := fs\<rparr>) = previous p s"
  by (simp add: previous_def)

lemma expected_fragment_previous:
  "fst (previous (od_get m (sequential_msg_id s)) s) + 1 = expected_fragment m s"
  by (simp add: previous_def expected_fragment_def split: option.split)

lemma previous_first: "fragment s = 1 \<Longrightarrow> previous p s = (0, [])"
  by (simp add: previous_def)

lemma previous_next:
  "fragment s \<noteq> 1 \<Longrightarrow> previous (Some p) s = (fragment p, payload p)"
  by (simp add: previous_def)

text \<open>The constructor on a payload that is not empty, within a limit of at least one.\<close>

lemma accept_within:
  assumes "at_least_one L" and "\<not> exceeds (length m) L" and "distinct (od_keys m)"
    and "payload s \<noteq> []"
  shows "accept py unpack L m s =
    (let self = s\<lparr>sub_fields := []\<rparr>;
         k = sequential_msg_id s;
         m1 = od_set m k self;
         ev = exceeds (length m1) L;
         m2 = (if ev then tl m1 else m1);
         notes = (if ev then [LimitReached (fst (hd m1))] else []);
         pp = snd (previous (od_get m k) s)
     in if expected_fragment m s \<noteq> fragment s then
          (od_without m2 k, notes, Raises (IncompleteMessageError (expected_fragment m s)))
        else if count s = fragment s then
          (od_without m2 k, notes, completed py unpack self (pp @ payload s))
        else
          (od_rebind m2 k (self\<lparr>payload := pp @ payload s\<rparr>), notes,
           Pending (self\<lparr>payload := pp @ payload s\<rparr>)))"
proof -
  have "accept py unpack L m s = parse_payload py unpack L m (s\<lparr>sub_fields := []\<rparr>)"
    using assms(4) by (simp add: accept_def)
  then show ?thesis
    unfolding parse_payload_within [OF assms(1-3)] Let_def completed_def
    using expected_fragment_previous [of m s]
    by (simp split: sum.split)
qed

text \<open>The outcome and the slot of the current message after the constructor.\<close>

lemma accept_outcome:
  assumes "at_least_one L" and "\<not> exceeds (length m) L" and "distinct (od_keys m)"
    and "payload s \<noteq> []"
  shows "outcome_of (accept py unpack L m s) =
    (if expected_fragment m s \<noteq> fragment s then
       Raises (IncompleteMessageError (expected_fragment m s))
     else if count s = fragment s then
       completed py unpack (s\<lparr>sub_fields := []\<rparr>)
         (snd (previous (od_get m (sequential_msg_id s)) s) @ payload s)
     else
       Pending (s\<lparr>sub_fields := [],
         payload := snd (previous (od_get m (sequential_msg_id s)) s) @ payload s\<rparr>))"
  unfolding accept_within [OF assms] Let_def outcome_of_def by simp

lemma accept_slot:
  assumes "at_least_one L" and "\<not> exceeds (length m) L" and "distinct (od_keys m)"
    and "payload s \<noteq> []"
  shows "od_get (state_of (accept py unpack L m s)) (sequential_msg_id s) =
    (if expected_fragment m s \<noteq> fragment s \<or> count s = fragment s then None
     else Some (s\<lparr>sub_fields := [],
       payload := snd (previous (od_get m (sequential_msg_id s)) s) @ payload s\<rparr>))"
proof -
  let ?k = "sequential_msg_id s"
  let ?self = "s\<lparr>sub_fields := []\<rparr>"
  let ?m1 = "od_set m ?k ?self"
  let ?m2 = "if exceeds (length ?m1) L then tl ?m1 else ?m1"
  have "od_get ?m2 ?k = Some ?self"
    using assms(1-3) by (rule slot_survives)
  then have "?k \<in> set (od_keys ?m2)"
    by (rule od_get_Some_key)
  then show ?thesis
    unfolding accept_within [OF assms] Let_def state_of_def
    by (simp add: od_get_without od_get_rebind)
qed

lemma reachable_call_within:
  assumes "reachable py unpack L m" and "at_least_one L"
  shows "\<not> exceeds (length (state_of (accept py unpack L m s))) L"
    and "distinct (od_keys (state_of (accept py unpack L m s)))"
  using reachable_within [OF reachable.call [OF assms(1)] assms(2)] by simp_all

lemma expected_fragment_first: "fragment s = 1 \<Longrightarrow> expected_fragment m s = 1"
  by (simp add: expected_fragment_def)

subsection \<open>Fragments out of turn\<close>

text \<open>
  C2, amended. In every state reachable under a limit of at least one, a sentence with
  a payload that is not empty and a fragment index other than the expected one makes the
  constructor raise \<^verbatim>\<open>IncompleteMessageError\<close> with the expected index, and the state
  after the raise has no slot for its sequential id. A sentence with fragment index 1, a payload
  that is not empty and the same id then starts afresh: it is pending with its own payload
  alone in the slot or, when its count is 1 too, complete at once.
\<close>

theorem out_of_turn_fragment:
  assumes "at_least_one L" and "reachable py unpack L m" and "payload s \<noteq> []"
    and "fragment s \<noteq> expected_fragment m s"
  shows "outcome_of (accept py unpack L m s) =
      Raises (IncompleteMessageError (expected_fragment m s)) \<and>
    sequential_msg_id s \<notin> set (od_keys (state_of (accept py unpack L m s))) \<and>
    (\<forall>s'. sequential_msg_id s' = sequential_msg_id s \<and> fragment s' = 1 \<and> payload s' \<noteq> [] \<longrightarrow>
       outcome_of (accept py unpack L (state_of (accept py unpack L m s)) s') =
         (if count s' = 1 then completed py unpack (s'\<lparr>sub_fields := []\<rparr>) (payload s')
          else Pending (s'\<lparr>sub_fields := []\<rparr>)) \<and>
       od_get (state_of (accept py unpack L (state_of (accept py unpack L m s)) s'))
           (sequential_msg_id s) =
         (if count s' = 1 then None else Some (s'\<lparr>sub_fields := []\<rparr>)))"
proof (intro conjI allI impI)
  note w = reachable_within [OF assms(2) assms(1)]
  show "outcome_of (accept py unpack L m s) =
      Raises (IncompleteMessageError (expected_fragment m s))"
    using assms(4) by (simp add: accept_outcome [OF assms(1) w assms(3)])
  have "od_get (state_of (accept py unpack L m s)) (sequential_msg_id s) = None"
    using assms(4) by (simp add: accept_slot [OF assms(1) w assms(3)])
  then show "sequential_msg_id s \<notin> set (od_keys (state_of (accept py unpack L m s)))"
    by (simp add: od_get_None_iff)
next
  fix s' :: "'a vdm"
  assume s': "sequential_msg_id s' = sequential_msg_id s \<and> fragment s' = 1 \<and> payload s' \<noteq> []"
  let ?m' = "state_of (accept py unpack L m s)"
  note w' = reachable_call_within [OF assms(2) assms(1), of s]
  from s' have p: "payload s' \<noteq> []" and f: "fragment s' = 1"
    and k: "sequential_msg_id s' = sequential_msg_id s"
    by simp_all
  show "outcome_of (accept py unpack L ?m' s') =
      (if count s' = 1 then completed py unpack (s'\<lparr>sub_fields := []\<rparr>) (payload s')
       else Pending (s'\<lparr>sub_fields := []\<rparr>))"
    using f by (simp add: accept_outcome [OF assms(1) w' p] expected_fragment_first
        previous_first)
  show "od_get (state_of (accept py unpack L ?m' s')) (sequential_msg_id s) =
      (if count s' = 1 then None else Some (s'\<lparr>sub_fields := []\<rparr>))"
    using f accept_slot [OF assms(1) w' p, of py unpack]
    by (simp add: k expected_fragment_first previous_first)
qed

text \<open>The definitions that the evaluation of a concrete call unfolds.\<close>

lemmas run_defs =
  accept_def parse_payload_def sentence_def od_get_def od_set_def od_keys_def
  enforce_limit_def exceeds_def od_first_def previous_def check_fragment_def od_pop_def
  od_rebind_def od_without_def is_complete_def state_of_def notes_of_def outcome_of_def
  Let_def

theorem out_of_turn_fragment_witness:
  "at_least_one Unbounded \<and>
   reachable sample_python sample_unpack Unbounded [(''3'', sentence 3 1 ''3'' ''A'')] \<and>
   expected_fragment [(''3'', sentence 3 1 ''3'' ''A'')] (sentence 3 3 ''3'' ''C'') = 2 \<and>
   outcome_of (accept sample_python sample_unpack Unbounded
     [(''3'', sentence 3 1 ''3'' ''A'')] (sentence 3 3 ''3'' ''C'')) =
     Raises (IncompleteMessageError 2) \<and>
   ''3'' \<notin> set (od_keys (state_of (accept sample_python sample_unpack Unbounded
     [(''3'', sentence 3 1 ''3'' ''A'')] (sentence 3 3 ''3'' ''C''))))"
proof -
  let ?m = "[(''3'', sentence 3 1 ''3'' ''A'')]"
  let ?s = "sentence 3 3 ''3'' ''C''"
  have a: "at_least_one Unbounded"
    by (simp add: at_least_one_def)
  have "state_of (accept sample_python sample_unpack Unbounded [] (sentence 3 1 ''3'' ''A'')) = ?m"
    by (simp add: run_defs)
  then have r: "reachable sample_python sample_unpack Unbounded ?m"
    using reachable.call [OF reachable.initial, of sample_python sample_unpack Unbounded
        "sentence 3 1 ''3'' ''A''"]
    by simp
  have e: "expected_fragment ?m ?s = 2"
    by (simp add: expected_fragment_def od_get_def sentence_def)
  have p: "payload ?s \<noteq> []" and f: "fragment ?s \<noteq> expected_fragment ?m ?s"
    and k: "sequential_msg_id ?s = ''3''"
    unfolding e by (simp_all add: sentence_def)
  from out_of_turn_fragment [OF a r p f] a r e k show ?thesis
    by simp
qed

text \<open>
  An out-of-turn fragment with an empty payload is returned unparsed, and with the limit
  0 an out-of-turn fragment raises \<^verbatim>\<open>KeyError\<close>.
\<close>

theorem out_of_turn_fragment_counterexample:
  "fragment (sentence 2 2 ''9'' []) \<noteq> expected_fragment [] (sentence 2 2 ''9'' []) \<and>
   accept sample_python sample_unpack Unbounded [] (sentence 2 2 ''9'' []) =
     ([], [], Unparsed (sentence 2 2 ''9'' [])) \<and>
   fragment (sentence 2 2 ''9'' ''X'') \<noteq> expected_fragment [] (sentence 2 2 ''9'' ''X'') \<and>
   accept sample_python sample_unpack (Limit 0) [] (sentence 2 2 ''9'' ''X'') =
     ([], [LimitReached ''9''], Raises (KeyError ''9''))"
  by (simp add: expected_fragment_def run_defs)

text \<open>A slot in a well-formed dictionary: the limit admits at least one message.\<close>

lemma well_formed_slot:
  assumes "well_formed L m" and "od_get m k = Some p"
  shows "at_least_one L" and "\<not> exceeds (length m) L" and "distinct (od_keys m)"
proof -
  from assms(2) have ne: "m \<noteq> []"
    by (auto simp: od_get_def)
  with assms(1) show w: "\<not> exceeds (length m) L" and "distinct (od_keys m)"
    by (simp_all add: well_formed_def)
  from ne have "1 \<le> length m"
    by (cases m) simp_all
  with w show "at_least_one L"
    by (cases L) (auto simp: at_least_one_def exceeds_def)
qed

lemma od_set_present:
  "k \<in> set (od_keys m) \<Longrightarrow> od_set m k v = od_rebind m k v"
  by (simp add: od_set_def)

lemma od_rebind_twice: "od_rebind (od_rebind m k v) k v' = od_rebind m k v'"
  by (induction m) (auto simp: od_rebind_def)

text \<open>A first fragment for a message that has a slot: the result in full.\<close>

lemma accept_restart:
  assumes wf: "well_formed L m" and p: "od_get m (sequential_msg_id s) = Some old"
    and f: "fragment s = 1" and pl: "payload s \<noteq> []"
  shows "accept py unpack L m s =
    (if count s = 1 then
       (od_without m (sequential_msg_id s), [],
        completed py unpack (s\<lparr>sub_fields := []\<rparr>) (payload s))
     else
       (od_rebind m (sequential_msg_id s) (s\<lparr>sub_fields := []\<rparr>), [],
        Pending (s\<lparr>sub_fields := []\<rparr>)))"
proof -
  note c = well_formed_slot [OF wf p]
  have k: "sequential_msg_id s \<in> set (od_keys m)"
    using p by (rule od_get_Some_key)
  then have m1: "od_set m (sequential_msg_id s) (s\<lparr>sub_fields := []\<rparr>) =
      od_rebind m (sequential_msg_id s) (s\<lparr>sub_fields := []\<rparr>)"
    by (rule od_set_present)
  have ev: "\<not> exceeds (length (od_rebind m (sequential_msg_id s) (s\<lparr>sub_fields := []\<rparr>))) L"
    using c(2) by simp
  show ?thesis
    unfolding accept_within [OF c pl] Let_def m1
    using f ev
    by (simp add: expected_fragment_first previous_first od_without_rebind od_rebind_twice)
qed

subsection \<open>A first fragment for a message in flight\<close>

text \<open>
  C4, amended. In every reachable state with a slot for the sequential id of a sentence
  that has fragment index 1 and a payload that is not empty, the constructor notifies
  nothing and raises nothing of its own: the sentence is pending with its own payload
  alone or, when its count is 1, complete on its own payload. In the state after the
  call the slot of that id holds the new sentence (no slot when it was complete), and
  every other slot is as before: nothing of the old chain is kept.
\<close>

theorem restart_discards_chain:
  assumes "reachable py unpack L m" and "od_get m (sequential_msg_id s) = Some old"
    and "fragment s = 1" and "payload s \<noteq> []"
  shows "notes_of (accept py unpack L m s) = [] \<and>
    outcome_of (accept py unpack L m s) =
      (if count s = 1 then completed py unpack (s\<lparr>sub_fields := []\<rparr>) (payload s)
       else Pending (s\<lparr>sub_fields := []\<rparr>)) \<and>
    (\<forall>k. od_get (state_of (accept py unpack L m s)) k =
       (if k = sequential_msg_id s
        then (if count s = 1 then None else Some (s\<lparr>sub_fields := []\<rparr>))
        else od_get m k))"
proof -
  have wf: "well_formed L m"
    using assms(1) by (rule reachable_well_formed)
  have k: "sequential_msg_id s \<in> set (od_keys m)"
    using assms(2) by (rule od_get_Some_key)
  show ?thesis
    unfolding accept_restart [OF wf assms(2-4)]
    using k by (simp add: notes_of_def outcome_of_def state_of_def od_get_without od_get_rebind)
qed

lemmas decode_defs =
  completed_def parse_complete_payload_def sample_unpack_def interpret_field_def

lemma reachable_one_step:
  assumes "state_of (accept py unpack L [] s) = m"
  shows "reachable py unpack L m"
  using reachable.call [OF reachable.initial, of py unpack L s] assms by simp

theorem restart_discards_chain_witness:
  "reachable sample_python sample_unpack Unbounded [(''3'', sentence 2 1 ''3'' ''AAAA'')] \<and>
   od_get [(''3'', sentence 2 1 ''3'' ''AAAA'')] (sequential_msg_id (sentence 2 1 ''3'' ''D'')) =
     Some (sentence 2 1 ''3'' ''AAAA'') \<and>
   outcome_of (accept sample_python sample_unpack Unbounded
     [(''3'', sentence 2 1 ''3'' ''AAAA'')] (sentence 2 1 ''3'' ''D'')) =
     Pending (sentence 2 1 ''3'' ''D'') \<and>
   od_get (state_of (accept sample_python sample_unpack Unbounded
     [(''3'', sentence 2 1 ''3'' ''AAAA'')] (sentence 2 1 ''3'' ''D''))) ''3'' =
     Some (sentence 2 1 ''3'' ''D'')"
proof -
  let ?m = "[(''3'', sentence 2 1 ''3'' ''AAAA'')]"
  let ?s = "sentence 2 1 ''3'' ''D''"
  have r: "reachable sample_python sample_unpack Unbounded ?m"
    by (rule reachable_one_step [of _ _ _ "sentence 2 1 ''3'' ''AAAA''"]) (simp add: run_defs)
  have g: "od_get ?m (sequential_msg_id ?s) = Some (sentence 2 1 ''3'' ''AAAA'')"
    by (simp add: od_get_def sentence_def)
  have f: "fragment ?s = 1" and p: "payload ?s \<noteq> []"
    by (simp_all add: sentence_def)
  have e: "count ?s \<noteq> 1" "?s\<lparr>sub_fields := []\<rparr> = ?s" "sequential_msg_id ?s = ''3''"
    by (simp_all add: sentence_def)
  from restart_discards_chain [OF r g f p] r g e show ?thesis
    by simp
qed

theorem restart_discards_chain_counterexample:
  "od_get [(''3'', sentence 2 1 ''3'' ''AAAA'')] ''3'' = Some (sentence 2 1 ''3'' ''AAAA'') \<and>
   fragment (sentence 2 1 ''3'' []) = 1 \<and>
   accept sample_python sample_unpack Unbounded [(''3'', sentence 2 1 ''3'' ''AAAA'')]
     (sentence 2 1 ''3'' []) =
     ([(''3'', sentence 2 1 ''3'' ''AAAA'')], [], Unparsed (sentence 2 1 ''3'' [])) \<and>
   outcome_of (accept sample_python sample_unpack Unbounded
     [(''3'', sentence 2 1 ''3'' ''AAAA'')] (sentence 2 2 ''3'' ''BBBB'')) =
     Complete ((sentence 2 2 ''3'' ''AAAABBBB'')
       \<lparr>sub_fields := [[PStr ''armor'', PStr ''AAAABBBB'', PStr ''t'', PStr ''Armored payload'']]\<rparr>)"
  by (simp add: run_defs decode_defs)

subsection \<open>Single-fragment sentences\<close>

text \<open>
  C3, amended. In every state reachable under a limit of at least one, a sentence with
  count 1, fragment index 1 and a payload that is not empty is complete on the first
  call (with the decoder's result on its own payload), and the state after the call has
  no slot for its sequential id. During the call the sentence is in the dictionary: it
  is set as a slot before the eviction block runs, so the oldest slot is evicted and
  notified when the dictionary is then over the limit, and it is removed at the end.
\<close>

theorem single_fragment_completes:
  assumes "at_least_one L" and "reachable py unpack L m"
    and "count s = 1" and "fragment s = 1" and "payload s \<noteq> []"
  shows "outcome_of (accept py unpack L m s) =
      completed py unpack (s\<lparr>sub_fields := []\<rparr>) (payload s) \<and>
    sequential_msg_id s \<notin> set (od_keys (state_of (accept py unpack L m s))) \<and>
    sequential_msg_id s \<in> set (od_keys (od_set m (sequential_msg_id s) (s\<lparr>sub_fields := []\<rparr>))) \<and>
    state_of (accept py unpack L m s) =
      od_without
        (if exceeds (length (od_set m (sequential_msg_id s) (s\<lparr>sub_fields := []\<rparr>))) L
         then tl (od_set m (sequential_msg_id s) (s\<lparr>sub_fields := []\<rparr>))
         else od_set m (sequential_msg_id s) (s\<lparr>sub_fields := []\<rparr>))
        (sequential_msg_id s) \<and>
    notes_of (accept py unpack L m s) =
      (if exceeds (length (od_set m (sequential_msg_id s) (s\<lparr>sub_fields := []\<rparr>))) L
       then [LimitReached (fst (hd (od_set m (sequential_msg_id s) (s\<lparr>sub_fields := []\<rparr>))))]
       else [])"
proof -
  note w = reachable_within [OF assms(2) assms(1)]
  have "od_get (state_of (accept py unpack L m s)) (sequential_msg_id s) = None"
    using assms(3,4) by (simp add: accept_slot [OF assms(1) w assms(5)])
  then have "sequential_msg_id s \<notin> set (od_keys (state_of (accept py unpack L m s)))"
    by (simp add: od_get_None_iff)
  moreover have "outcome_of (accept py unpack L m s) =
      completed py unpack (s\<lparr>sub_fields := []\<rparr>) (payload s)"
    using assms(3,4)
    by (simp add: accept_outcome [OF assms(1) w assms(5)] expected_fragment_first previous_first)
  moreover have "state_of (accept py unpack L m s) =
      od_without
        (if exceeds (length (od_set m (sequential_msg_id s) (s\<lparr>sub_fields := []\<rparr>))) L
         then tl (od_set m (sequential_msg_id s) (s\<lparr>sub_fields := []\<rparr>))
         else od_set m (sequential_msg_id s) (s\<lparr>sub_fields := []\<rparr>))
        (sequential_msg_id s)"
    unfolding accept_within [OF assms(1) w assms(5)] Let_def state_of_def
    using assms(3,4) by (simp add: expected_fragment_first)
  moreover have "notes_of (accept py unpack L m s) =
      (if exceeds (length (od_set m (sequential_msg_id s) (s\<lparr>sub_fields := []\<rparr>))) L
       then [LimitReached (fst (hd (od_set m (sequential_msg_id s) (s\<lparr>sub_fields := []\<rparr>))))]
       else [])"
    unfolding accept_within [OF assms(1) w assms(5)] Let_def notes_of_def
    using assms(3,4) by (simp add: expected_fragment_first)
  ultimately show ?thesis
    by (simp add: od_set_has_key)
qed

theorem single_fragment_completes_witness:
  "at_least_one (Limit 1) \<and> reachable sample_python sample_unpack (Limit 1) [] \<and>
   accept sample_python sample_unpack (Limit 1) [] (sentence 1 1 [] ''X'') =
     ([], [], Complete ((sentence 1 1 [] ''X'')
        \<lparr>sub_fields := [[PStr ''armor'', PStr ''X'', PStr ''t'', PStr ''Armored payload'']]\<rparr>))"
proof -
  let ?s = "sentence 1 1 [] ''X''"
  have a: "at_least_one (Limit 1)"
    by (simp add: at_least_one_def)
  have r: "reachable sample_python sample_unpack (Limit 1) []"
    by (rule reachable.initial)
  have c: "count ?s = 1" and f: "fragment ?s = 1" and p: "payload ?s \<noteq> []"
    by (simp_all add: sentence_def)
  have m1: "od_set [] (sequential_msg_id ?s) (?s\<lparr>sub_fields := []\<rparr>) = [([], ?s)]"
    by (simp add: od_set_def od_keys_def sentence_def)
  have d: "completed sample_python sample_unpack (?s\<lparr>sub_fields := []\<rparr>) (payload ?s) =
      Complete (?s\<lparr>sub_fields := [[PStr ''armor'', PStr ''X'', PStr ''t'', PStr ''Armored payload'']]\<rparr>)"
    by (simp add: decode_defs sentence_def)
  from single_fragment_completes [OF a r c f p, unfolded m1 d]
  have "accept sample_python sample_unpack (Limit 1) [] ?s =
      ([], [], Complete (?s\<lparr>sub_fields := [[PStr ''armor'', PStr ''X'', PStr ''t'', PStr ''Armored payload'']]\<rparr>))"
    by (cases "accept sample_python sample_unpack (Limit 1) [] ?s")
      (simp add: state_of_def notes_of_def outcome_of_def exceeds_def od_without_def sentence_def)
  with a r show ?thesis by simp
qed

theorem single_fragment_completes_counterexample:
  "reachable sample_python sample_unpack (Limit 1) [(''7'', sentence 2 1 ''7'' ''AB'')] \<and>
   od_set [(''7'', sentence 2 1 ''7'' ''AB'')] [] (sentence 1 1 [] ''X'') =
     [(''7'', sentence 2 1 ''7'' ''AB''), ([], sentence 1 1 [] ''X'')] \<and>
   accept sample_python sample_unpack (Limit 1) [(''7'', sentence 2 1 ''7'' ''AB'')]
     (sentence 1 1 [] ''X'') =
     ([], [LimitReached ''7''], Complete ((sentence 1 1 [] ''X'')
        \<lparr>sub_fields := [[PStr ''armor'', PStr ''X'', PStr ''t'', PStr ''Armored payload'']]\<rparr>))"
proof -
  have "reachable sample_python sample_unpack (Limit 1) [(''7'', sentence 2 1 ''7'' ''AB'')]"
    by (rule reachable_one_step [of _ _ _ "sentence 2 1 ''7'' ''AB''"]) (simp add: run_defs)
  then show ?thesis
    by (simp add: run_defs decode_defs)
qed

lemma fragments_in_order_count:
  "fragments_in_order k n j ss \<Longrightarrow> n = j + int (length ss)"
proof (induction ss arbitrary: j)
  case Nil
  then show ?case by simp
next
  case (Cons s ss)
  from Cons.prems have "fragments_in_order k n (j + 1) ss"
    by simp
  then have "n = (j + 1) + int (length ss)"
    by (rule Cons.IH)
  then show ?case by simp
qed

lemma accept_all_not_empty: "ss \<noteq> [] \<Longrightarrow> accept_all py unpack L m ss \<noteq> []"
  by (cases ss) (simp_all add: Let_def)

lemma last_accept_all:
  "ss \<noteq> [] \<Longrightarrow>
   last (accept_all py unpack L m (s # ss)) =
     last (accept_all py unpack L (state_of (accept py unpack L m s)) ss)"
  by (simp add: Let_def accept_all_not_empty)

lemma accept_keeps_within:
  assumes "at_least_one L" and "\<not> exceeds (length m) L" and "distinct (od_keys m)"
  shows "\<not> exceeds (length (state_of (accept py unpack L m s))) L"
    and "distinct (od_keys (state_of (accept py unpack L m s)))"
proof -
  have "well_formed L m"
    using assms(2,3) by (simp add: well_formed_def)
  then have "well_formed L (state_of (accept py unpack L m s))"
    by (rule accept_well_formed)
  then show "\<not> exceeds (length (state_of (accept py unpack L m s))) L"
    and "distinct (od_keys (state_of (accept py unpack L m s)))"
    using at_least_one_empty [OF assms(1)] by (auto simp: well_formed_def)
qed

text \<open>
  The fragments \<open>j + 1\<close>, ..., \<open>n\<close> of a message, delivered in order to a dictionary in
  which \<open>j\<close> and \<open>acc\<close> are what \<^verbatim>\<open>parse_payload\<close> finds as \<^verbatim>\<open>last\<close> and
  \<^verbatim>\<open>prev_payload\<close> for the first of them.
\<close>

lemma in_order_run:
  assumes L: "at_least_one L"
  shows "\<not> exceeds (length m) L \<Longrightarrow> distinct (od_keys m) \<Longrightarrow> ss \<noteq> [] \<Longrightarrow>
    fragments_in_order k n j ss \<Longrightarrow> \<forall>s \<in> set ss. payload s \<noteq> [] \<Longrightarrow> 0 \<le> j \<Longrightarrow>
    previous (od_get m k) (hd ss) = (j, acc) \<Longrightarrow>
    outcome_of (last (accept_all py unpack L m ss)) =
      completed py unpack ((last ss)\<lparr>sub_fields := []\<rparr>) (acc @ concat (map payload ss)) \<and>
    k \<notin> set (od_keys (state_of (last (accept_all py unpack L m ss))))"
proof (induction ss arbitrary: m j acc)
  case Nil
  then show ?case by simp
next
  case (Cons s rest)
  from Cons.prems(4) have s: "count s = n" "fragment s = j + 1" "sequential_msg_id s = k"
    and rest: "fragments_in_order k n (j + 1) rest"
    by simp_all
  from Cons.prems(5) have pl: "payload s \<noteq> []"
    by simp
  from Cons.prems(7) have prev: "previous (od_get m (sequential_msg_id s)) s = (j, acc)"
    by (simp add: s)
  then have ex: "expected_fragment m s = fragment s"
    using expected_fragment_previous [of m s] by (simp add: s)
  note w = Cons.prems(1,2)
  show ?case
  proof (cases "rest = []")
    case True
    with rest have "count s = fragment s"
      by (simp add: s)
    with True ex prev show ?thesis
      using accept_outcome [OF L w pl, of py unpack] accept_slot [OF L w pl, of py unpack]
      by (simp add: Let_def od_get_None_iff [symmetric] s)
  next
    case False
    let ?m' = "state_of (accept py unpack L m s)"
    let ?s' = "s\<lparr>sub_fields := [], payload := acc @ payload s\<rparr>"
    from fragments_in_order_count [OF rest] False have "count s \<noteq> fragment s"
      by (cases rest) (simp_all add: s)
    with ex prev have slot: "od_get ?m' k = Some ?s'"
      using accept_slot [OF L w pl, of py unpack] by (simp add: s)
    from False rest have "fragment (hd rest) = j + 2"
      by (cases rest) simp_all
    with Cons.prems(6) have "fragment (hd rest) \<noteq> 1"
      by simp
    then have p': "previous (od_get ?m' k) (hd rest) = (j + 1, acc @ payload s)"
      by (simp add: slot previous_next s)
    have "outcome_of (last (accept_all py unpack L ?m' rest)) =
        completed py unpack ((last rest)\<lparr>sub_fields := []\<rparr>)
          ((acc @ payload s) @ concat (map payload rest)) \<and>
      k \<notin> set (od_keys (state_of (last (accept_all py unpack L ?m' rest))))"
      using accept_keeps_within [OF L w] False rest Cons.prems(5,6) p'
      by (intro Cons.IH) simp_all
    moreover have "last (s # rest) = last rest"
      using False by simp
    ultimately show ?thesis
      using last_accept_all [OF False, of py unpack L m s]
      by (simp del: accept_all.simps)
  qed
qed

subsection \<open>Fragments delivered in order\<close>

text \<open>
  C1, amended. In every state reachable under a limit of at least one, when the
  fragments 1, ..., \<open>n\<close> of one message, each with a payload that is not empty, are
  delivered in order, the last call is complete: the decoder is given the concatenation
  of the payloads in the order of delivery, the sentence returned holds that payload, and
  the state after the call has no slot for the sequential id.
\<close>

theorem in_order_delivery_completes:
  assumes "at_least_one L" and "reachable py unpack L m" and "ss \<noteq> []"
    and "fragments_in_order k n 0 ss" and "\<forall>s \<in> set ss. payload s \<noteq> []"
  shows "outcome_of (last (accept_all py unpack L m ss)) =
      completed py unpack ((last ss)\<lparr>sub_fields := []\<rparr>) (concat (map payload ss)) \<and>
    k \<notin> set (od_keys (state_of (last (accept_all py unpack L m ss))))"
proof -
  from assms(3,4) have "fragment (hd ss) = 1"
    by (cases ss) simp_all
  then have "previous (od_get m k) (hd ss) = (0, [])"
    by (rule previous_first)
  with in_order_run [OF assms(1) reachable_within [OF assms(2) assms(1)] assms(3-5),
      where acc = "[]"]
  show ?thesis by simp
qed

theorem in_order_delivery_completes_witness:
  "at_least_one Unbounded \<and> reachable sample_python sample_unpack Unbounded [] \<and>
   fragments_in_order ''3'' 2 0 [sentence 2 1 ''3'' ''AAAA'', sentence 2 2 ''3'' ''BBBB''] \<and>
   outcome_of (last (accept_all sample_python sample_unpack Unbounded []
     [sentence 2 1 ''3'' ''AAAA'', sentence 2 2 ''3'' ''BBBB''])) =
     Complete ((sentence 2 2 ''3'' ''AAAABBBB'')
       \<lparr>sub_fields := [[PStr ''armor'', PStr ''AAAABBBB'', PStr ''t'', PStr ''Armored payload'']]\<rparr>) \<and>
   ''3'' \<notin> set (od_keys (state_of (last (accept_all sample_python sample_unpack Unbounded []
     [sentence 2 1 ''3'' ''AAAA'', sentence 2 2 ''3'' ''BBBB'']))))"
proof -
  let ?ss = "[sentence 2 1 ''3'' ''AAAA'', sentence 2 2 ''3'' ''BBBB'']"
  have a: "at_least_one Unbounded"
    by (simp add: at_least_one_def)
  have r: "reachable sample_python sample_unpack Unbounded []"
    by (rule reachable.initial)
  have ne: "?ss \<noteq> []"
    by simp
  have o: "fragments_in_order ''3'' 2 0 ?ss"
    by (simp add: sentence_def)
  have p: "\<forall>s \<in> set ?ss. payload s \<noteq> []"
    by (simp add: sentence_def)
  have d: "completed sample_python sample_unpack ((last ?ss)\<lparr>sub_fields := []\<rparr>)
      (concat (map payload ?ss)) =
    Complete ((sentence 2 2 ''3'' ''AAAABBBB'')
       \<lparr>sub_fields := [[PStr ''armor'', PStr ''AAAABBBB'', PStr ''t'', PStr ''Armored payload'']]\<rparr>)"
    by (simp add: decode_defs sentence_def)
  from in_order_delivery_completes [OF a r ne o p] a r o
  show ?thesis
    unfolding d by blast
qed

text \<open>
  A first fragment with an empty payload leaves no slot, so the second fragment is out of
  turn; and with the limit 0 the slot of the first fragment is evicted at once.
\<close>

theorem in_order_delivery_completes_counterexample:
  "fragments_in_order ''3'' 2 0 [sentence 2 1 ''3'' [], sentence 2 2 ''3'' ''BBBB''] \<and>
   accept_all sample_python sample_unpack Unbounded []
     [sentence 2 1 ''3'' [], sentence 2 2 ''3'' ''BBBB''] =
   [([], [], Unparsed (sentence 2 1 ''3'' [])),
    ([], [], Raises (IncompleteMessageError 1))] \<and>
   fragments_in_order ''3'' 2 0 [sentence 2 1 ''3'' ''AAAA'', sentence 2 2 ''3'' ''BBBB''] \<and>
   accept_all sample_python sample_unpack (Limit 0) []
     [sentence 2 1 ''3'' ''AAAA'', sentence 2 2 ''3'' ''BBBB''] =
   [([], [LimitReached ''3''], Pending (sentence 2 1 ''3'' ''AAAA'')),
    ([], [LimitReached ''3''], Raises (KeyError ''3''))]"
  by (simp add: run_defs)

subsection \<open>What the sentence pattern accepts\<close>

lemma nullable_lang: "nullable r \<longleftrightarrow> [] \<in> lang r"
  by (induction r) (auto simp: conc_def intro: star.star_empty)

lemma conc_Cons:
  "x # w \<in> conc A B \<longleftrightarrow>
     ([] \<in> A \<and> x # w \<in> B) \<or> (\<exists>u v. w = u @ v \<and> x # u \<in> A \<and> v \<in> B)"
  by (auto simp: conc_def Cons_eq_append_conv)

lemma star_Cons_elim:
  assumes "s \<in> star A" and "s = x # w"
  shows "\<exists>u v. w = u @ v \<and> x # u \<in> A \<and> v \<in> star A"
  using assms
proof (induction arbitrary: w rule: star.induct)
  case star_empty
  then show ?case by simp
next
  case (star_more u v)
  show ?case
  proof (cases u)
    case Nil
    with star_more show ?thesis by simp
  next
    case (Cons y u')
    with star_more.prems have "y = x" and "w = u' @ v"
      by simp_all
    with Cons star_more.hyps show ?thesis by blast
  qed
qed

lemma star_Cons:
  "x # w \<in> star A \<longleftrightarrow> (\<exists>u v. w = u @ v \<and> x # u \<in> A \<and> v \<in> star A)"
proof
  assume "x # w \<in> star A"
  then show "\<exists>u v. w = u @ v \<and> x # u \<in> A \<and> v \<in> star A"
    by (rule star_Cons_elim) simp
next
  assume "\<exists>u v. w = u @ v \<and> x # u \<in> A \<and> v \<in> star A"
  then obtain u v where "w = u @ v" and "x # u \<in> A" and "v \<in> star A"
    by blast
  then show "x # w \<in> star A"
    using star.star_more [of "x # u" A v] by simp
qed

lemma lang_deriv: "w \<in> lang (deriv x r) \<longleftrightarrow> x # w \<in> lang r"
proof (induction r arbitrary: w)
  case (Then a b)
  then show ?case
    by (auto simp: conc_Cons nullable_lang) (auto simp: conc_def)
next
  case (Many a)
  then show ?case
    by (auto simp: star_Cons conc_def)
qed auto

text \<open>The matcher decides membership.\<close>

lemma matches_lang: "matches r s \<longleftrightarrow> s \<in> lang r"
  by (induction s arbitrary: r) (simp_all add: nullable_lang lang_deriv)

lemma conc_assoc: "conc (conc A B) C = conc A (conc B C)"
  by (auto simp: conc_def) (metis append.assoc)+

lemma conc_Un_left: "conc (A \<union> B) C = conc A C \<union> conc B C"
  by (auto simp: conc_def)

lemma conc_Un_right: "conc A (B \<union> C) = conc A B \<union> conc A C"
  by (auto simp: conc_def)

lemma conc_unit_right: "conc A {[]} = A"
  by (auto simp: conc_def)

lemma lang_Maybe: "lang (Maybe r) = lang r \<union> {[]}"
  by (simp add: Maybe_def)

text \<open>The repetition of a class: the texts whose characters are all in the class.\<close>

lemma star_class: "star {[x] | x. P x} = {s. \<forall>x \<in> set s. P x}"
proof (rule set_eqI, rule iffI)
  fix s
  assume "s \<in> star {[x] | x. P x}"
  then show "s \<in> {s. \<forall>x \<in> set s. P x}"
    by (induction rule: star.induct) auto
next
  fix s
  assume "s \<in> {s. \<forall>x \<in> set s. P x}"
  then have "\<forall>x \<in> set s. P x"
    by simp
  then show "s \<in> star {[x] | x. P x}"
  proof (induction s)
    case Nil
    show ?case by (rule star.star_empty)
  next
    case (Cons a s)
    then have "[a] \<in> {[x] | x. P x}" and "s \<in> star {[x] | x. P x}"
      by simp_all
    then have "[a] @ s \<in> star {[x] | x. P x}"
      by (rule star.star_more)
    then show ?case by simp
  qed
qed

lemma lang_Many_Cls: "lang (Many (Cls c)) = {s. \<forall>x \<in> set s. in_class c x}"
  by (simp add: star_class)

lemma of_char_swap_case:
  "(of_char (swap_case c) :: nat) =
     (let n = of_char c
      in if 65 \<le> n \<and> n \<le> 90 then n + 32 else if 97 \<le> n \<and> n \<le> 122 then n - 32 else n)"
  by (auto simp: swap_case_def Let_def)

lemma swap_case_not_letter:
  assumes "swap_case c = y"
    and "\<not> (65 \<le> (of_char y :: nat) \<and> (of_char y :: nat) \<le> 90)"
    and "\<not> (97 \<le> (of_char y :: nat) \<and> (of_char y :: nat) \<le> 122)"
  shows "c = y"
proof -
  have "(of_char (swap_case c) :: nat) = of_char y"
    using assms(1) by simp
  with assms(2,3) have "\<not> (65 \<le> (of_char c :: nat) \<and> (of_char c :: nat) \<le> 90)"
    and "\<not> (97 \<le> (of_char c :: nat) \<and> (of_char c :: nat) \<le> 122)"
    by (auto simp: of_char_swap_case Let_def split: if_splits)
  with assms(1) show ?thesis
    by (simp add: swap_case_def Let_def)
qed

lemma in_class_marks3:
  "in_class (Bracket [One CHR ''$'', One CHR ''|'', One CHR ''!'']) x \<longleftrightarrow>
     x = CHR ''$'' \<or> x = CHR ''|'' \<or> x = CHR ''!''"
  by (auto dest: swap_case_not_letter)

lemma in_class_marks2:
  "in_class (Bracket [One CHR ''$'', One CHR ''!'']) x \<longleftrightarrow> x = CHR ''$'' \<or> x = CHR ''!''"
  by (auto dest: swap_case_not_letter)

lemma in_class_newlines:
  "in_class (Bracket [One (CHR 0x0D), One (CHR 0x0A)]) x \<longleftrightarrow> x = CHR 0x0D \<or> x = CHR 0x0A"
  by (auto dest: swap_case_not_letter)

lemma in_class_newline:
  "in_class (Bracket [One (CHR 0x0A)]) x \<longleftrightarrow> x = CHR 0x0A"
  by (auto dest: swap_case_not_letter)

lemma is_space_newlines: "is_space (CHR 0x0D)" "is_space (CHR 0x0A)"
  by (simp_all add: is_space_def)


lemma class_space: "in_class Space = is_space"
  by (rule ext) simp

lemma class_newlines:
  "in_class (Bracket [One (CHR 0x0D), One (CHR 0x0A)]) = (\<lambda>x. x = CHR 0x0D \<or> x = CHR 0x0A)"
  by (rule ext) (rule in_class_newlines)

text \<open>\<^verbatim>\<open>\s*[\r\n]*$\<close> at the end of the pattern accepts what \<^verbatim>\<open>\s*\<close> accepts there.\<close>

lemma lang_tail:
  "lang (Sequence [Many (Cls Space), Many (Cls (Bracket [One (CHR 0x0D), One (CHR 0x0A)])), Dollar])
   = lang (Sequence [Many (Cls Space)])"
proof -
  let ?S = "{s. \<forall>x. x \<in> set s \<longrightarrow> is_space x}"
  let ?N = "{s. \<forall>x. x \<in> set s \<longrightarrow> x = CHR 0x0D \<or> x = CHR 0x0A}"
  let ?D = "{[x] | x. x = CHR 0x0A} \<union> {[]}"
  have l: "lang (Sequence [Many (Cls Space),
      Many (Cls (Bracket [One (CHR 0x0D), One (CHR 0x0A)])), Dollar]) =
      conc ?S (conc ?N (conc ?D {[]}))"
    unfolding Sequence.simps lang.simps(4) lang_Many_Cls Dollar_def lang_Maybe
    by (simp only: class_newlines class_space in_class_newline lang.simps Ball_def)
  have r: "lang (Sequence [Many (Cls Space)]) = conc ?S {[]}"
    unfolding Sequence.simps lang.simps(4) lang_Many_Cls
    by (simp only: class_space lang.simps Ball_def)
  have "conc ?S (conc ?N (conc ?D {[]})) = ?S"
  proof (rule set_eqI, rule iffI)
    fix s
    assume "s \<in> conc ?S (conc ?N (conc ?D {[]}))"
    then obtain u v d where s: "s = u @ v @ d"
      and u: "\<forall>x. x \<in> set u \<longrightarrow> is_space x"
      and v: "\<forall>x. x \<in> set v \<longrightarrow> x = CHR 0x0D \<or> x = CHR 0x0A"
      and d: "d = [CHR 0x0A] \<or> d = []"
      by (auto simp: conc_def)
    from v have "\<forall>x. x \<in> set v \<longrightarrow> is_space x"
      using is_space_newlines by blast
    moreover from d have "\<forall>x. x \<in> set d \<longrightarrow> is_space x"
      using is_space_newlines by auto
    ultimately show "s \<in> ?S"
      using s u by auto
  next
    fix s
    assume "s \<in> ?S"
    moreover have "[] \<in> conc ?N (conc ?D {[]})"
      by (auto simp: conc_def)
    ultimately have "s @ [] \<in> conc ?S (conc ?N (conc ?D {[]}))"
      unfolding conc_def [of ?S] by blast
    then show "s \<in> conc ?S (conc ?N (conc ?D {[]}))"
      by simp
  qed
  with l r show ?thesis
    by (simp add: conc_unit_right)
qed

lemma lang_marks:
  "lang (Maybe (Cls (Bracket [One CHR ''$'', One CHR ''|'', One CHR ''!'']))) =
   lang (Maybe (Cls (Bracket [One CHR ''$'', One CHR ''!'']))) \<union> {[CHR ''|'']}"
  unfolding lang_Maybe lang.simps in_class_marks3 in_class_marks2 by auto

text \<open>What the pattern accepts: the amended grammar, and the same with \<^verbatim>\<open>|\<close> as the mark.\<close>

lemma lang_sentence_re:
  "lang sentence_re =
   lang amended_pattern \<union>
   conc (lang (Many (Cls Space)))
     (conc {[CHR ''|'']}
       (lang (Sequence [sentence_type_pattern, Many (Cls (NotBracket [One CHR ''*''])), Maybe checksum_pattern,
          Many (Cls Space)])))"
proof -
  let ?W = "Many (Cls Space)"
  let ?T = "sentence_type_pattern"
  let ?NS = "Many (Cls (NotBracket [One CHR ''*'']))"
  let ?CK = "Maybe checksum_pattern"
  let ?RN = "Many (Cls (Bracket [One (CHR 0x0D), One (CHR 0x0A)]))"
  let ?M3 = "Maybe (Cls (Bracket [One CHR ''$'', One CHR ''|'', One CHR ''!'']))"
  let ?M2 = "Maybe (Cls (Bracket [One CHR ''$'', One CHR ''!'']))"
  have body: "lang (Sequence [?T, ?NS, ?CK, ?W, ?RN, Dollar]) = lang (Sequence [?T, ?NS, ?CK, ?W])"
  proof -
    have "lang (Sequence [?T, ?NS, ?CK, ?W, ?RN, Dollar]) =
        conc (lang ?T) (conc (lang ?NS) (conc (lang ?CK) (lang (Sequence [?W, ?RN, Dollar]))))"
      by (simp only: Sequence.simps lang.simps(4))
    also have "\<dots> = conc (lang ?T) (conc (lang ?NS) (conc (lang ?CK) (lang (Sequence [?W]))))"
      by (simp only: lang_tail)
    also have "\<dots> = lang (Sequence [?T, ?NS, ?CK, ?W])"
      by (simp only: Sequence.simps lang.simps(4))
    finally show ?thesis .
  qed
  have "lang sentence_re = conc (lang ?W) (conc (lang ?M3) (lang (Sequence [?T, ?NS, ?CK, ?W, ?RN, Dollar])))"
    unfolding sentence_re_def by (simp only: Sequence.simps lang.simps(4))
  also have "\<dots> = conc (lang ?W) (conc (lang ?M2 \<union> {[CHR ''|'']}) (lang (Sequence [?T, ?NS, ?CK, ?W])))"
    by (simp only: body lang_marks)
  also have "\<dots> =
      conc (lang ?W) (conc (lang ?M2) (lang (Sequence [?T, ?NS, ?CK, ?W]))) \<union>
      conc (lang ?W) (conc {[CHR ''|'']} (lang (Sequence [?T, ?NS, ?CK, ?W])))"
    by (simp only: conc_Un_left conc_Un_right)
  also have "conc (lang ?W) (conc (lang ?M2) (lang (Sequence [?T, ?NS, ?CK, ?W]))) =
      lang amended_pattern"
    unfolding amended_pattern_def claimed_pattern_def
    by (simp only: Sequence.simps lang.simps(4))
  finally show ?thesis .
qed


lemma class_not_star: "in_class (NotBracket [One CHR ''*'']) = (\<lambda>x. x \<noteq> CHR ''*'')"
  by (rule ext) (auto dest: swap_case_not_letter)

lemma char_of_code: "(of_char c :: nat) = n \<Longrightarrow> c = char_of n"
  by auto

lemma swap_case_upper:
  assumes "65 \<le> (of_char u :: nat)" and "(of_char u :: nat) \<le> 90"
  shows "swap_case c = u \<longleftrightarrow> c = char_of ((of_char u :: nat) + 32)"
proof
  assume "swap_case c = u"
  then have "(of_char (swap_case c) :: nat) = of_char u"
    by simp
  with assms have "(of_char c :: nat) = of_char u + 32"
    by (auto simp: of_char_swap_case Let_def split: if_splits)
  then show "c = char_of ((of_char u :: nat) + 32)"
    by (rule char_of_code)
next
  assume "c = char_of ((of_char u :: nat) + 32)"
  with assms have "(of_char c :: nat) = of_char u + 32"
    by simp
  with assms have "(of_char (swap_case c) :: nat) = of_char u"
    by (simp add: of_char_swap_case Let_def)
  then show "swap_case c = u"
    by simp
qed

lemma lower_p: "char_of (112 :: nat) = CHR ''p''"
proof -
  have "char_of (of_char CHR ''p'' :: nat) = CHR ''p''"
    by (rule char_of_char)
  then show ?thesis by simp
qed

lemma lower_q: "char_of (113 :: nat) = CHR ''q''"
proof -
  have "char_of (of_char CHR ''q'' :: nat) = CHR ''q''"
    by (rule char_of_char)
  then show ?thesis by simp
qed

lemma in_class_P: "in_class (Lit CHR ''P'') c \<longleftrightarrow> c = CHR ''P'' \<or> c = CHR ''p''"
  by (simp add: swap_case_upper lower_p)

lemma in_class_Q: "in_class (Lit CHR ''Q'') c \<longleftrightarrow> c = CHR ''Q'' \<or> c = CHR ''q''"
  by (simp add: swap_case_upper lower_q)

lemma in_class_comma: "in_class (Lit CHR '','') c \<longleftrightarrow> c = CHR '',''"
  by (auto dest: swap_case_not_letter)

lemma in_class_star: "in_class (Bracket [One CHR ''*'']) c \<longleftrightarrow> c = CHR ''*''"
  by (auto dest: swap_case_not_letter)

lemma in_class_hex:
  "in_class (Bracket [Range CHR ''A'' CHR ''F'', Range CHR ''0'' CHR ''9'']) c \<longleftrightarrow> hex_digit c"
  by (auto simp: hex_digit_def of_char_swap_case Let_def split: if_splits)

lemma conc_mem: "s \<in> conc A B \<longleftrightarrow> (\<exists>u v. s = u @ v \<and> u \<in> A \<and> v \<in> B)"
  by (auto simp: conc_def)

lemma conc_memI: "u \<in> A \<Longrightarrow> v \<in> B \<Longrightarrow> u @ v \<in> conc A B"
  by (auto simp: conc_def)

text \<open>A class repeated \<open>n\<close> times: the texts of \<open>n\<close> characters of the class.\<close>

lemma lang_Times_Cls:
  "lang (Times n (Cls c)) = {s. length s = n \<and> (\<forall>x \<in> set s. in_class c x)}"
proof (induction n)
  case 0
  show ?case by auto
next
  case (Suc n)
  show ?case
  proof (rule set_eqI, rule iffI)
    fix s
    assume "s \<in> lang (Times (Suc n) (Cls c))"
    then obtain x v where "s = x # v" and "in_class c x" and "v \<in> lang (Times n (Cls c))"
      by (auto simp: conc_def)
    then show "s \<in> {s. length s = Suc n \<and> (\<forall>x \<in> set s. in_class c x)}"
      by (simp add: Suc.IH)
  next
    fix s
    assume "s \<in> {s. length s = Suc n \<and> (\<forall>x \<in> set s. in_class c x)}"
    then obtain x v where s: "s = x # v" and "in_class c x"
      and "length v = n" and "\<forall>y \<in> set v. in_class c y"
      by (cases s) auto
    then have "[x] \<in> lang (Cls c)" and "v \<in> lang (Times n (Cls c))"
      by (simp_all add: Suc.IH)
    then have "[x] @ v \<in> conc (lang (Cls c)) (lang (Times n (Cls c)))"
      by (rule conc_memI)
    with s show "s \<in> lang (Times (Suc n) (Cls c))"
      by simp
  qed
qed

lemma words_Times: "lang (Times n (Cls Word)) = {s. length s = n \<and> (\<forall>x \<in> set s. is_word x)}"
  by (simp add: lang_Times_Cls)

lemma lang_proprietary: "lang proprietary_pattern = {ty. proprietary_id ty}"
proof (rule set_eqI, rule iffI)
  fix ty
  assume "ty \<in> lang proprietary_pattern"
  then obtain u w where "ty = u @ w" and "u \<in> lang (Cls (Lit CHR ''P''))"
    and "w \<in> lang (Times 3 (Cls Word))"
    unfolding proprietary_pattern_def lang.simps(4) conc_mem by blast
  then show "ty \<in> {ty. proprietary_id ty}"
    unfolding words_Times lang.simps(3) in_class_P proprietary_id_def by auto
next
  fix ty
  assume "ty \<in> {ty. proprietary_id ty}"
  then obtain p w where ty: "ty = p # w" and "p = CHR ''P'' \<or> p = CHR ''p''"
    and "length w = 3" and "\<forall>x \<in> set w. is_word x"
    by (auto simp: proprietary_id_def)
  then have "[p] \<in> lang (Cls (Lit CHR ''P''))" and "w \<in> lang (Times 3 (Cls Word))"
    unfolding words_Times lang.simps(3) in_class_P by simp_all
  then have "[p] @ w \<in> lang proprietary_pattern"
    unfolding proprietary_pattern_def lang.simps(4) by (rule conc_memI)
  with ty show "ty \<in> lang proprietary_pattern"
    by simp
qed

lemma lang_talker: "lang talker_pattern = {ty. talker_id ty}"
proof (rule set_eqI, rule iffI)
  fix ty
  assume "ty \<in> lang talker_pattern"
  then obtain a b c where "ty = a @ b @ c" and "a \<in> lang (Times 2 (Cls Word))"
    and "b \<in> lang (Times 3 (Cls Word))" and "c \<in> lang (Cls (Lit CHR '',''))"
    unfolding talker_pattern_def Sequence.simps lang.simps(4) lang.simps(2) conc_mem by auto
  then have "ty = (a @ b) @ '',''" and "length (a @ b) = 5" and "\<forall>x \<in> set (a @ b). is_word x"
    unfolding words_Times lang.simps(3) in_class_comma by auto
  then show "ty \<in> {ty. talker_id ty}"
    unfolding talker_id_def by blast
next
  fix ty
  assume "ty \<in> {ty. talker_id ty}"
  then obtain t where ty: "ty = t @ '',''" and l: "length t = 5" and w: "\<forall>x \<in> set t. is_word x"
    by (auto simp: talker_id_def)
  from l w have "take 2 t \<in> lang (Times 2 (Cls Word))" and "drop 2 t \<in> lang (Times 3 (Cls Word))"
    unfolding words_Times by (auto dest: in_set_takeD in_set_dropD)
  moreover have "'','' \<in> conc (lang (Cls (Lit CHR '',''))) (lang Empty)"
    by (auto simp: conc_def in_class_comma)
  ultimately have "take 2 t @ drop 2 t @ '','' \<in> lang talker_pattern"
    unfolding talker_pattern_def Sequence.simps lang.simps(4)
    by (intro conc_memI)
  moreover have "take 2 t @ (drop 2 t @ r) = t @ r" for r
    by (simp add: append_assoc [symmetric] del: append_assoc)
  ultimately show "ty \<in> lang talker_pattern"
    using ty by (simp only:)
qed

lemma lang_query: "lang query_pattern = {ty. query_id ty}"
proof (rule set_eqI, rule iffI)
  fix ty
  assume "ty \<in> lang query_pattern"
  then have "ty \<in> conc (lang (Times 2 (Cls Word))) (conc (lang (Times 2 (Cls Word)))
      (conc (lang (Cls (Lit CHR ''Q''))) (conc (lang (Cls (Lit CHR '','')))
        (conc (lang (Times 3 (Cls Word))) {[]}))))"
    by (simp only: query_pattern_def Sequence.simps lang.simps(4) lang.simps(2))
  then obtain a r1 where "ty = a @ r1" and "a \<in> lang (Times 2 (Cls Word))"
    and "r1 \<in> conc (lang (Times 2 (Cls Word)))
      (conc (lang (Cls (Lit CHR ''Q''))) (conc (lang (Cls (Lit CHR '','')))
        (conc (lang (Times 3 (Cls Word))) {[]})))"
    unfolding conc_mem [of ty] by blast
  moreover then obtain b r2 where "r1 = b @ r2" and "b \<in> lang (Times 2 (Cls Word))"
    and "r2 \<in> conc (lang (Cls (Lit CHR ''Q''))) (conc (lang (Cls (Lit CHR '','')))
        (conc (lang (Times 3 (Cls Word))) {[]}))"
    unfolding conc_mem [of r1] by blast
  moreover then obtain q r3 where "r2 = q @ r3" and "q \<in> lang (Cls (Lit CHR ''Q''))"
    and "r3 \<in> conc (lang (Cls (Lit CHR '',''))) (conc (lang (Times 3 (Cls Word))) {[]})"
    unfolding conc_mem [of r2] by blast
  moreover then obtain c s where "r3 = c @ s" and "c \<in> lang (Cls (Lit CHR '',''))"
    and "s \<in> lang (Times 3 (Cls Word))"
    unfolding conc_mem [of r3] conc_unit_right by blast
  ultimately have "ty = a @ b @ q @ c @ s" and "a \<in> lang (Times 2 (Cls Word))"
    and "b \<in> lang (Times 2 (Cls Word))" and "q \<in> lang (Cls (Lit CHR ''Q''))"
    and "c \<in> lang (Cls (Lit CHR '',''))" and "s \<in> lang (Times 3 (Cls Word))"
    by simp_all
  then have "\<exists>x. ty = (a @ b) @ x # CHR '','' # s \<and> (x = CHR ''Q'' \<or> x = CHR ''q'')"
    and "length (a @ b) = 4" and "\<forall>x \<in> set (a @ b). is_word x"
    and "length s = 3" and "\<forall>x \<in> set s. is_word x"
    unfolding words_Times lang.simps(3) in_class_comma in_class_Q by auto
  then show "ty \<in> {ty. query_id ty}"
    unfolding query_id_def by blast
next
  fix ty
  assume "ty \<in> {ty. query_id ty}"
  then obtain t q s where ty: "ty = t @ q # CHR '','' # s" and l: "length t = 4"
    and w: "\<forall>x \<in> set t. is_word x" and q: "q = CHR ''Q'' \<or> q = CHR ''q''"
    and ls: "length s = 3" and ws: "\<forall>x \<in> set s. is_word x"
    by (auto simp: query_id_def)
  from l w have "take 2 t \<in> lang (Times 2 (Cls Word))" and "drop 2 t \<in> lang (Times 2 (Cls Word))"
    unfolding words_Times by (auto dest: in_set_takeD in_set_dropD)
  moreover from q have "[q] \<in> lang (Cls (Lit CHR ''Q''))"
    unfolding lang.simps(3) in_class_Q by simp
  moreover have "'','' \<in> lang (Cls (Lit CHR '',''))"
    by (simp add: in_class_comma)
  moreover from ls ws have "s \<in> lang (Times 3 (Cls Word))"
    unfolding words_Times by simp
  moreover have "[] \<in> lang Empty"
    by simp
  ultimately have "take 2 t @ drop 2 t @ [q] @ '','' @ s @ [] \<in> lang query_pattern"
    unfolding query_pattern_def Sequence.simps lang.simps(4)
    by (intro conc_memI)
  then have "take 2 t @ (drop 2 t @ (q # CHR '','' # s)) \<in> lang query_pattern"
    by simp
  moreover have "take 2 t @ (drop 2 t @ r) = t @ r" for r
    by (simp add: append_assoc [symmetric] del: append_assoc)
  ultimately show "ty \<in> lang query_pattern"
    using ty by (simp only:)
qed

lemma lang_sentence_type:
  "lang sentence_type_pattern = {ty. proprietary_id ty \<or> query_id ty \<or> talker_id ty}"
  by (auto simp: sentence_type_pattern_def lang_proprietary lang_query lang_talker)

lemma lang_checksum: "lang checksum_pattern = {ck. checksum_text ck}"
proof (rule set_eqI, rule iffI)
  fix ck
  assume "ck \<in> lang checksum_pattern"
  then obtain u h where "ck = u @ h" and "u \<in> lang (Cls (Bracket [One CHR ''*'']))"
    and "h \<in> lang (Times 2 (Cls (Bracket [Range CHR ''A'' CHR ''F'', Range CHR ''0'' CHR ''9''])))"
    unfolding checksum_pattern_def lang.simps(4) conc_mem by blast
  then obtain h1 h2 where "ck = [CHR ''*'', h1, h2]" and "hex_digit h1" and "hex_digit h2"
    unfolding lang_Times_Cls lang.simps(3) in_class_star in_class_hex
    by (auto simp: length_Suc_conv numeral_2_eq_2)
  then show "ck \<in> {ck. checksum_text ck}"
    by (auto simp: checksum_text_def)
next
  fix ck
  assume "ck \<in> {ck. checksum_text ck}"
  then obtain h1 h2 where ck: "ck = [CHR ''*'', h1, h2]" and "hex_digit h1" and "hex_digit h2"
    by (auto simp: checksum_text_def)
  then have "[CHR ''*''] \<in> lang (Cls (Bracket [One CHR ''*'']))"
    and "[h1, h2] \<in>
      lang (Times 2 (Cls (Bracket [Range CHR ''A'' CHR ''F'', Range CHR ''0'' CHR ''9''])))"
    unfolding lang_Times_Cls lang.simps(3) in_class_star in_class_hex by simp_all
  then have "[CHR ''*''] @ [h1, h2] \<in> lang checksum_pattern"
    unfolding checksum_pattern_def lang.simps(4) by (rule conc_memI)
  with ck show "ck \<in> lang checksum_pattern"
    by simp
qed

lemma conc_five:
  "s \<in> conc A (conc B (conc C (conc D E))) \<longleftrightarrow>
     (\<exists>a b c d e. s = a @ b @ c @ d @ e \<and> a \<in> A \<and> b \<in> B \<and> c \<in> C \<and> d \<in> D \<and> e \<in> E)"
proof
  assume "s \<in> conc A (conc B (conc C (conc D E)))"
  then obtain a r1 where "s = a @ r1" and "a \<in> A" and "r1 \<in> conc B (conc C (conc D E))"
    unfolding conc_mem [of s] by blast
  moreover then obtain b r2 where "r1 = b @ r2" and "b \<in> B" and "r2 \<in> conc C (conc D E)"
    unfolding conc_mem [of r1] by blast
  moreover then obtain c r3 where "r2 = c @ r3" and "c \<in> C" and "r3 \<in> conc D E"
    unfolding conc_mem [of r2] by blast
  moreover then obtain d e where "r3 = d @ e" and "d \<in> D" and "e \<in> E"
    unfolding conc_mem [of r3] by blast
  ultimately have "s = a @ b @ c @ d @ e \<and> a \<in> A \<and> b \<in> B \<and> c \<in> C \<and> d \<in> D \<and> e \<in> E"
    by simp
  then show "\<exists>a b c d e. s = a @ b @ c @ d @ e \<and> a \<in> A \<and> b \<in> B \<and> c \<in> C \<and> d \<in> D \<and> e \<in> E"
    by blast
next
  assume "\<exists>a b c d e. s = a @ b @ c @ d @ e \<and> a \<in> A \<and> b \<in> B \<and> c \<in> C \<and> d \<in> D \<and> e \<in> E"
  then obtain a b c d e where s: "s = a @ b @ c @ d @ e"
    and "a \<in> A" and "b \<in> B" and "c \<in> C" and "d \<in> D" and "e \<in> E"
    by blast
  then have "a @ b @ c @ d @ e \<in> conc A (conc B (conc C (conc D E)))"
    by (intro conc_memI)
  with s show "s \<in> conc A (conc B (conc C (conc D E)))"
    by simp
qed

text \<open>The pattern of the claimed shape, part by part.\<close>

lemma lang_claimed_pattern:
  "lang claimed_pattern =
     conc {[], ''$'', ''!''}
       (conc {ty. proprietary_id ty \<or> query_id ty \<or> talker_id ty}
         (conc {s. \<forall>x \<in> set s. x \<noteq> CHR ''*''}
           (conc ({ck. checksum_text ck} \<union> {[]}) {s. \<forall>x \<in> set s. is_space x})))"
proof -
  have m: "lang (Maybe (Cls (Bracket [One CHR ''$'', One CHR ''!'']))) = {[], ''$'', ''!''}"
    unfolding lang_Maybe lang.simps in_class_marks2 by auto
  have c: "lang (Maybe checksum_pattern) = {ck. checksum_text ck} \<union> {[]}"
    by (simp only: lang_Maybe lang_checksum)
  have w: "lang (Many (Cls Space)) = {s. \<forall>x \<in> set s. is_space x}"
    by (simp add: star_class)
  have n: "lang (Many (Cls (NotBracket [One CHR ''*'']))) = {s. \<forall>x \<in> set s. x \<noteq> CHR ''*''}"
    unfolding lang_Many_Cls class_not_star ..
  have "lang claimed_pattern =
      conc (lang (Maybe (Cls (Bracket [One CHR ''$'', One CHR ''!'']))))
        (conc (lang sentence_type_pattern)
          (conc (lang (Many (Cls (NotBracket [One CHR ''*'']))))
            (conc (lang (Maybe checksum_pattern)) (conc (lang (Many (Cls Space))) {[]}))))"
    by (simp only: claimed_pattern_def Sequence.simps lang.simps(4) lang.simps(2))
  then show ?thesis
    by (simp only: w n m c lang_sentence_type conc_unit_right)
qed

lemma ball_not_star: "(\<forall>x \<in> set s. x \<noteq> CHR ''*'') \<longleftrightarrow> CHR ''*'' \<notin> set s"
  by auto

text \<open>The patterns of the two shapes accept the lines of the shapes.\<close>

lemma claimed_shape_pattern: "matches claimed_pattern line \<longleftrightarrow> claimed_shape line"
proof -
  have "claimed_shape line \<longleftrightarrow>
    (\<exists>a b c d e. line = a @ b @ c @ d @ e \<and> a \<in> {[], ''$'', ''!''} \<and>
       b \<in> {ty. proprietary_id ty \<or> query_id ty \<or> talker_id ty} \<and>
       c \<in> {s. \<forall>x \<in> set s. x \<noteq> CHR ''*''} \<and>
       d \<in> {ck. checksum_text ck} \<union> {[]} \<and> e \<in> {s. \<forall>x \<in> set s. is_space x})"
    unfolding claimed_shape_def by (simp add: disj_commute ball_not_star)
  then show ?thesis
    by (simp only: matches_lang lang_claimed_pattern conc_five)
qed

lemma amended_shape_pattern: "matches amended_pattern line \<longleftrightarrow> amended_shape line"
proof -
  have w: "lang (Many (Cls Space)) = {s. \<forall>x \<in> set s. is_space x}"
    by (simp add: star_class)
  have "matches amended_pattern line \<longleftrightarrow>
    (\<exists>ws rest. line = ws @ rest \<and> ws \<in> {s. \<forall>x \<in> set s. is_space x} \<and>
       rest \<in> lang claimed_pattern)"
    by (simp only: matches_lang amended_pattern_def lang.simps(4) w conc_mem)
  then show ?thesis
    by (simp add: amended_shape_def claimed_shape_pattern [symmetric] matches_lang)
qed

subsection \<open>The groups of a match\<close>

lemma is_word_not_space: "is_word c \<Longrightarrow> \<not> is_space c"
  unfolding is_word_def is_space_def Let_def by (simp only: insert_iff empty_iff) presburger

lemma is_word_not_delimiter:
  "is_word c \<Longrightarrow> c \<noteq> CHR ''$'' \<and> c \<noteq> CHR ''|'' \<and> c \<noteq> CHR ''!'' \<and> c \<noteq> CHR ''*''"
  by (auto simp: is_word_def Let_def)

lemma is_word_letters: "is_word CHR ''P''" "is_word CHR ''p''" "is_word CHR ''Q''" "is_word CHR ''q''"
  by (simp_all add: is_word_def)

lemma mark_not_space: "\<not> is_space CHR ''$''" "\<not> is_space CHR ''|''" "\<not> is_space CHR ''!''"
  by (simp_all add: is_space_def)

lemma is_space_not_star: "is_space c \<Longrightarrow> c \<noteq> CHR ''*''"
  by (auto simp: is_space_def)


text \<open>A sentence-type identifier: its length, its first character, and no \<^verbatim>\<open>*\<close> in it.\<close>

lemma proprietary_id_length: "proprietary_id ty \<Longrightarrow> length ty = 4"
  unfolding proprietary_id_def by (elim exE conjE) simp

lemma query_id_length: "query_id ty \<Longrightarrow> length ty = 9"
  unfolding query_id_def by (elim exE conjE) simp

lemma talker_id_length: "talker_id ty \<Longrightarrow> length ty = 6"
  unfolding talker_id_def by (elim exE conjE) simp

lemma word_prefix_head:
  assumes "ty = t @ r" and "0 < length t" and "\<forall>x \<in> set t. is_word x"
  shows "\<exists>c r'. ty = c # r' \<and> is_word c"
proof (cases t)
  case Nil
  with assms show ?thesis
    by simp
next
  case (Cons c t')
  with assms have "ty = c # (t' @ r)" and "is_word c"
    by simp_all
  then show ?thesis
    by blast
qed

lemma identifier_head:
  assumes "proprietary_id ty \<or> query_id ty \<or> talker_id ty"
  shows "\<exists>c r. ty = c # r \<and> is_word c"
proof -
  consider (p) "proprietary_id ty" | (q) "query_id ty" | (t) "talker_id ty"
    using assms by blast
  then show ?thesis
  proof cases
    case p
    then obtain c w where "ty = c # w" and "c = CHR ''P'' \<or> c = CHR ''p''"
      unfolding proprietary_id_def by blast
    moreover then have "is_word c"
      using is_word_letters by blast
    ultimately show ?thesis
      by blast
  next
    case q
    then obtain t r where "ty = t @ r" and "length t = 4" and "\<forall>x \<in> set t. is_word x"
      unfolding query_id_def by blast
    then show ?thesis
      by (intro word_prefix_head [of ty t r]) simp_all
  next
    case t
    then obtain u r where "ty = u @ r" and "length u = 5" and "\<forall>x \<in> set u. is_word x"
      unfolding talker_id_def by blast
    then show ?thesis
      by (intro word_prefix_head [of ty u r]) simp_all
  qed
qed

lemma identifier_no_star:
  assumes "proprietary_id ty \<or> query_id ty \<or> talker_id ty"
  shows "CHR ''*'' \<notin> set ty"
proof -
  have w: "\<And>s. \<forall>x \<in> set s. is_word x \<Longrightarrow> CHR ''*'' \<notin> set s"
    using is_word_not_delimiter by blast
  consider (p) "proprietary_id ty" | (q) "query_id ty" | (t) "talker_id ty"
    using assms by blast
  then show ?thesis
  proof cases
    case p
    then obtain c s where "ty = c # s" and "c = CHR ''P'' \<or> c = CHR ''p''"
      and "\<forall>x \<in> set s. is_word x"
      unfolding proprietary_id_def by blast
    with w [of s] show ?thesis
      by auto
  next
    case q
    then obtain t c s where "ty = t @ c # CHR '','' # s" and "\<forall>x \<in> set t. is_word x"
      and "c = CHR ''Q'' \<or> c = CHR ''q''" and "\<forall>x \<in> set s. is_word x"
      unfolding query_id_def by blast
    with w [of s] w [of t] show ?thesis
      by auto
  next
    case t
    then obtain u where "ty = u @ '',''" and "\<forall>x \<in> set u. is_word x"
      unfolding talker_id_def by blast
    with w [of u] show ?thesis
      by auto
  qed
qed

text \<open>The parts of a line that the pattern matches, with any of the three marks.\<close>

lemma lang_unmarked:
  "lang (Sequence [sentence_type_pattern, Many (Cls (NotBracket [One CHR ''*''])),
      Maybe checksum_pattern, Many (Cls Space)]) =
     conc {ty. proprietary_id ty \<or> query_id ty \<or> talker_id ty}
       (conc {s. \<forall>x \<in> set s. x \<noteq> CHR ''*''}
         (conc ({ck. checksum_text ck} \<union> {[]}) {s. \<forall>x \<in> set s. is_space x}))"
proof -
  have c: "lang (Maybe checksum_pattern) = {ck. checksum_text ck} \<union> {[]}"
    by (simp only: lang_Maybe lang_checksum)
  have w: "lang (Many (Cls Space)) = {s. \<forall>x \<in> set s. is_space x}"
    by (simp add: star_class)
  have n: "lang (Many (Cls (NotBracket [One CHR ''*'']))) = {s. \<forall>x \<in> set s. x \<noteq> CHR ''*''}"
    unfolding lang_Many_Cls class_not_star ..
  have "lang (Sequence [sentence_type_pattern, Many (Cls (NotBracket [One CHR ''*''])),
      Maybe checksum_pattern, Many (Cls Space)]) =
      conc (lang sentence_type_pattern)
        (conc (lang (Many (Cls (NotBracket [One CHR ''*'']))))
          (conc (lang (Maybe checksum_pattern)) (conc (lang (Many (Cls Space))) {[]})))"
    by (simp only: Sequence.simps lang.simps(4) lang.simps(2))
  then show ?thesis
    by (simp only: w n c lang_sentence_type conc_unit_right)
qed

lemma member_right: "x \<in> A \<union> B \<Longrightarrow> x \<notin> A \<Longrightarrow> x \<in> B"
  by blast

lemma sentence_re_parts:
  assumes "matches sentence_re line"
  shows "\<exists>ws mark ty dat ck trail.
           line = ws @ mark @ ty @ dat @ ck @ trail \<and>
           (\<forall>x \<in> set ws. is_space x) \<and>
           (mark = [] \<or> mark = ''$'' \<or> mark = ''|'' \<or> mark = ''!'') \<and>
           (proprietary_id ty \<or> query_id ty \<or> talker_id ty) \<and>
           CHR ''*'' \<notin> set dat \<and>
           (ck = [] \<or> checksum_text ck) \<and>
           (\<forall>x \<in> set trail. is_space x)"
proof (cases "matches amended_pattern line")
  case True
  then have "amended_shape line"
    by (simp only: amended_shape_pattern)
  then obtain ws rest where l: "line = ws @ rest" and ws: "\<forall>x \<in> set ws. is_space x"
    and "claimed_shape rest"
    unfolding amended_shape_def by blast
  then obtain mark ty dat ck trail where "rest = mark @ ty @ dat @ ck @ trail"
    and "mark = [] \<or> mark = ''$'' \<or> mark = ''!''"
    and "proprietary_id ty \<or> query_id ty \<or> talker_id ty"
    and "CHR ''*'' \<notin> set dat" and "ck = [] \<or> checksum_text ck"
    and "\<forall>x \<in> set trail. is_space x"
    unfolding claimed_shape_def by blast
  with l ws show ?thesis
    by blast
next
  case False
  let ?T = "{ty. proprietary_id ty \<or> query_id ty \<or> talker_id ty}"
  let ?D = "{s. \<forall>x \<in> set s. x \<noteq> CHR ''*''}"
  let ?C = "{ck. checksum_text ck} \<union> {[]}"
  let ?S = "{s. \<forall>x \<in> set s. is_space x}"
  from assms have "line \<in> lang sentence_re"
    by (simp only: matches_lang)
  then have "line \<in> lang amended_pattern \<union> conc (lang (Many (Cls Space)))
     (conc {[CHR ''|'']}
       (lang (Sequence [sentence_type_pattern, Many (Cls (NotBracket [One CHR ''*''])),
          Maybe checksum_pattern, Many (Cls Space)])))"
    by (simp only: lang_sentence_re)
  moreover from False have "line \<notin> lang amended_pattern"
    by (simp only: matches_lang not_False_eq_True)
  ultimately have "line \<in> conc (lang (Many (Cls Space)))
     (conc {[CHR ''|'']}
       (lang (Sequence [sentence_type_pattern, Many (Cls (NotBracket [One CHR ''*''])),
          Maybe checksum_pattern, Many (Cls Space)])))"
    by (rule member_right)
  then have "line \<in> conc ?S (conc {[CHR ''|'']} (conc ?T (conc ?D (conc ?C ?S))))"
    by (simp only: lang_unmarked lang_Many_Cls class_space)
  then obtain ws r1 where l: "line = ws @ r1" and ws: "ws \<in> ?S"
    and "r1 \<in> conc {[CHR ''|'']} (conc ?T (conc ?D (conc ?C ?S)))"
    unfolding conc_mem [of line] by (elim exE conjE)
  then have "\<exists>a b c d e. r1 = a @ b @ c @ d @ e \<and> a \<in> {[CHR ''|'']} \<and> b \<in> ?T \<and> c \<in> ?D \<and>
      d \<in> ?C \<and> e \<in> ?S"
    by (simp only: conc_five)
  then obtain a ty dat ck trail where r1: "r1 = a @ ty @ dat @ ck @ trail"
    and a: "a \<in> {[CHR ''|'']}" and ty: "ty \<in> ?T" and dat: "dat \<in> ?D" and ck: "ck \<in> ?C"
    and trail: "trail \<in> ?S"
    by (elim exE conjE)
  from l r1 a have "line = ws @ ''|'' @ ty @ dat @ ck @ trail"
    by simp
  moreover from ws have "\<forall>x \<in> set ws. is_space x"
    by simp
  moreover from ty have "proprietary_id ty \<or> query_id ty \<or> talker_id ty"
    by simp
  moreover from dat have "CHR ''*'' \<notin> set dat"
    by (simp add: ball_not_star)
  moreover from ck have "ck = [] \<or> checksum_text ck"
    by auto
  moreover from trail have "\<forall>x \<in> set trail. is_space x"
    by simp
  ultimately show ?thesis
    by blast
qed

text \<open>What follows the whitespace and the mark.\<close>

lemma after_mark_parts:
  assumes "\<forall>x \<in> set ws. is_space x"
    and "mark = [] \<or> mark = ''$'' \<or> mark = ''|'' \<or> mark = ''!''"
    and "is_word c"
  shows "after_mark (ws @ mark @ c # r) = c # r"
proof -
  from assms(1) have d: "dropWhile is_space (ws @ mark @ c # r) = dropWhile is_space (mark @ c # r)"
    by (simp add: dropWhile_append2)
  from assms(3) have c: "\<not> is_space c"
    and m: "\<not> in_class (Bracket [One CHR ''$'', One CHR ''|'', One CHR ''!'']) c"
    using is_word_not_space is_word_not_delimiter unfolding in_class_marks3 by blast+
  from assms(2) consider "mark = []" | "mark = ''$''" | "mark = ''|''" | "mark = ''!''"
    by blast
  then show ?thesis
  proof cases
    case 1
    with d c m show ?thesis
      by (simp add: after_mark_def del: in_class.simps)
  next
    case 2
    with d show ?thesis
      by (simp add: after_mark_def mark_not_space in_class_marks3 del: in_class.simps)
  next
    case 3
    with d show ?thesis
      by (simp add: after_mark_def mark_not_space in_class_marks3 del: in_class.simps)
  next
    case 4
    with d show ?thesis
      by (simp add: after_mark_def mark_not_space in_class_marks3 del: in_class.simps)
  qed
qed

text \<open>The groups \<^verbatim>\<open>sentence_type\<close> and \<^verbatim>\<open>data\<close> make up the group \<^verbatim>\<open>nmea_str\<close>.\<close>

lemma take_drop_length: "take k n @ drop (length (take k n)) n = n"
  by (simp add: min_def)

lemma groups_append: "sentence_type_group line @ data_group line = nmea_str line"
proof -
  obtain k where "sentence_type_group line = take k (nmea_str line)"
    unfolding sentence_type_group_def by (cases "matches proprietary_pattern (take 4 (nmea_str line))";
      cases "matches query_pattern (take 9 (nmea_str line))") auto
  then show ?thesis
    unfolding data_group_def by (simp only: take_drop_length)
qed

lemma nmea_str_no_star: "CHR ''*'' \<notin> set (nmea_str line)"
  unfolding nmea_str_def by (auto dest: set_takeWhileD)

lemma data_group_no_star: "CHR ''*'' \<notin> set (data_group line)"
  using nmea_str_no_star [of line] unfolding data_group_def by (auto dest: in_set_dropD)

text \<open>The group \<^verbatim>\<open>sentence_type\<close> is an identifier of one of the three shapes.\<close>

lemma sentence_type_group_identifier:
  assumes n: "nmea_str line = ty @ d"
    and ty: "proprietary_id ty \<or> query_id ty \<or> talker_id ty"
  shows "proprietary_id (sentence_type_group line) \<or> query_id (sentence_type_group line) \<or>
         talker_id (sentence_type_group line)"
proof (cases "matches proprietary_pattern (take 4 (nmea_str line))")
  case True
  then have "proprietary_id (sentence_type_group line)"
    by (simp add: sentence_type_group_def matches_lang lang_proprietary)
  then show ?thesis ..
next
  case np: False
  show ?thesis
  proof (cases "matches query_pattern (take 9 (nmea_str line))")
    case True
    with np have "query_id (sentence_type_group line)"
      by (simp add: sentence_type_group_def matches_lang lang_query)
    then show ?thesis
      by blast
  next
    case nq: False
    have "\<not> proprietary_id ty"
    proof
      assume p: "proprietary_id ty"
      then have "take 4 (nmea_str line) = ty"
        using n by (simp add: proprietary_id_length)
      with p np show False
        by (simp add: matches_lang lang_proprietary)
    qed
    moreover have "\<not> query_id ty"
    proof
      assume q: "query_id ty"
      then have "take 9 (nmea_str line) = ty"
        using n by (simp add: query_id_length)
      with q nq show False
        by (simp add: matches_lang lang_query)
    qed
    ultimately have t: "talker_id ty"
      using ty by blast
    then have "take 6 (nmea_str line) = ty"
      using n by (simp add: talker_id_length)
    with np nq t have "talker_id (sentence_type_group line)"
      by (simp add: sentence_type_group_def)
    then show ?thesis
      by blast
  qed
qed

text \<open>
  The groups of a match split the line: whitespace, a mark, the sentence type, the data,
  the checksum with its \<^verbatim>\<open>*\<close>, whitespace.
\<close>

lemma groups_of_match:
  assumes "matches sentence_re line"
  shows "\<exists>ws mark ck trail.
           line = ws @ mark @ sentence_type_group line @ data_group line @ ck @ trail \<and>
           (\<forall>x \<in> set ws. is_space x) \<and>
           (mark = [] \<or> mark = ''$'' \<or> mark = ''|'' \<or> mark = ''!'') \<and>
           (proprietary_id (sentence_type_group line) \<or> query_id (sentence_type_group line) \<or>
            talker_id (sentence_type_group line)) \<and>
           CHR ''*'' \<notin> set (data_group line) \<and>
           (case checksum_group line of
              None \<Rightarrow> ck = []
            | Some hh \<Rightarrow> ck = CHR ''*'' # hh \<and> checksum_text ck) \<and>
           (\<forall>x \<in> set trail. is_space x)"
proof -
  from sentence_re_parts [OF assms] obtain ws mark ty dat ck trail where
    l: "line = ws @ mark @ ty @ dat @ ck @ trail"
    and ws: "\<forall>x \<in> set ws. is_space x"
    and mark: "mark = [] \<or> mark = ''$'' \<or> mark = ''|'' \<or> mark = ''!''"
    and ty: "proprietary_id ty \<or> query_id ty \<or> talker_id ty"
    and dat: "CHR ''*'' \<notin> set dat"
    and ck: "ck = [] \<or> checksum_text ck"
    and trail: "\<forall>x \<in> set trail. is_space x"
    by (elim exE conjE)
  from ty obtain c r where c: "ty = c # r" and w: "is_word c"
    using identifier_head [of ty] by blast
  from ws mark w have "after_mark (ws @ mark @ c # (r @ dat @ ck @ trail)) = c # (r @ dat @ ck @ trail)"
    by (rule after_mark_parts)
  with l c have am: "after_mark line = (ty @ dat) @ ck @ trail"
    by simp
  from ty dat have td: "\<forall>x \<in> set (ty @ dat). x \<noteq> CHR ''*''"
    using identifier_no_star [of ty] by auto
  have "\<exists>d ck' trail'. nmea_str line = ty @ d \<and> line = ws @ mark @ nmea_str line @ ck' @ trail' \<and>
      (case checksum_group line of
         None \<Rightarrow> ck' = []
       | Some hh \<Rightarrow> ck' = CHR ''*'' # hh \<and> checksum_text ck') \<and>
      (\<forall>x \<in> set trail'. is_space x)"
  proof (cases "ck = []")
    case True
    from trail td have all: "\<forall>x \<in> set ((ty @ dat) @ trail). x \<noteq> CHR ''*''"
      using is_space_not_star by auto
    from True am have am': "after_mark line = (ty @ dat) @ trail"
      by simp
    from all have n: "nmea_str line = ty @ (dat @ trail)"
      unfolding nmea_str_def am' by (simp only: takeWhile_eq_all_conv [THEN iffD2] append_assoc)
    from all have "dropWhile (\<lambda>c. c \<noteq> CHR ''*'') (after_mark line) = []"
      unfolding am' by (simp only: dropWhile_eq_Nil_conv)
    then have g: "checksum_group line = None"
      by (simp only: checksum_group_def list.case)
    from l True n have "line = ws @ mark @ nmea_str line @ [] @ []"
      by simp
    with n g show ?thesis
      by (intro exI [of _ "dat @ trail"] exI [of _ "[]"]) simp
  next
    case False
    with ck obtain h1 h2 where k: "ck = [CHR ''*'', h1, h2]" and "checksum_text ck"
      unfolding checksum_text_def by blast
    from k am have am': "after_mark line = (ty @ dat) @ CHR ''*'' # h1 # h2 # trail"
      by simp
    from td have "takeWhile (\<lambda>c. c \<noteq> CHR ''*'') ((ty @ dat) @ CHR ''*'' # h1 # h2 # trail) = ty @ dat"
      by (simp only: takeWhile_tail takeWhile_eq_all_conv [THEN iffD2] not_not)
    then have n: "nmea_str line = ty @ dat"
      unfolding nmea_str_def am' .
    from td have "dropWhile (\<lambda>c. c \<noteq> CHR ''*'') ((ty @ dat) @ CHR ''*'' # h1 # h2 # trail) =
        dropWhile (\<lambda>c. c \<noteq> CHR ''*'') (CHR ''*'' # h1 # h2 # trail)"
      by (intro dropWhile_append2) blast
    then have "dropWhile (\<lambda>c. c \<noteq> CHR ''*'') ((ty @ dat) @ CHR ''*'' # h1 # h2 # trail) =
        CHR ''*'' # h1 # h2 # trail"
      by simp
    then have g: "checksum_group line = Some [h1, h2]"
      unfolding checksum_group_def am' by (simp only: list.case)
    from l n have "line = ws @ mark @ nmea_str line @ ck @ trail"
      by simp
    with n g k \<open>checksum_text ck\<close> trail show ?thesis
      by (intro exI [of _ dat] exI [of _ ck] exI [of _ trail]) simp
  qed
  then obtain d ck' trail' where n: "nmea_str line = ty @ d"
    and l': "line = ws @ mark @ nmea_str line @ ck' @ trail'"
    and g: "case checksum_group line of
         None \<Rightarrow> ck' = []
       | Some hh \<Rightarrow> ck' = CHR ''*'' # hh \<and> checksum_text ck'"
    and t: "\<forall>x \<in> set trail'. is_space x"
    by (elim exE conjE)
  from l' have "line = ws @ mark @ sentence_type_group line @ data_group line @ ck' @ trail'"
    by (simp only: groups_append [symmetric] append_assoc)
  moreover from n ty have
    "proprietary_id (sentence_type_group line) \<or> query_id (sentence_type_group line) \<or>
     talker_id (sentence_type_group line)"
    by (rule sentence_type_group_identifier)
  moreover note ws mark data_group_no_star [of line] g t
  ultimately show ?thesis
    by blast
qed

subsection \<open>The parser on a line\<close>


text \<open>The mark \<^verbatim>\<open>|\<close> is accepted too: in a character class, \<^verbatim>\<open>|\<close> is a member.\<close>

lemma bar_mark_accepted:
  "parse vdm_registered ''|AIVDM,1,1,,B,,0'' =
     Inr \<lparr>sentence_type = ''AIVDM,'', data = ''1,1,,B,,0'', checksum = None\<rparr>"
  by code_simp




end
